theory Spec2Isabelle
  imports Main "HOL-Library.Word" "HOL-Library.Multiset"
begin

section \<open>The descriptor as the inspector reads it\<close>

text \<open>
  The inspector of \<^verbatim>\<open>tree/ntupleutil/v7/src/RNTupleInspector.cxx\<close> only reads
  the descriptor, through a handful of accessors. The descriptor classes are declared
  outside that file, so each accessor the source calls is a field of a record here: the
  value of the field is what the accessor returns. What an accessor does on an argument
  it has no answer for is decided in the descriptor classes, not in the file modelled.

  Identifiers (\<^verbatim>\<open>DescriptorId_t\<close>) are only compared, and incremented below a
  bound; they are natural numbers. Byte and element counts are added up in
  \<^verbatim>\<open>std::uint64_t\<close> accumulators and a \<^verbatim>\<open>std::uint32_t\<close> element size;
  they are machine words, and every sum below is a sum of 64-bit words. The integer
  fields of the descriptor are taken at the width of the accumulator they are added to.
\<close>

type_synonym DescriptorId_t = nat
type_synonym EColumnType = nat
type_synonym u32 = "32 word"
type_synonym u64 = "64 word"

record RColumnDescriptor =
  GetType :: EColumnType
  GetPhysicalId :: DescriptorId_t
  IsAliasColumn :: bool

record RPageInfo =
  page_fNElements :: u64
  fBytesOnStorage :: u64

record RColumnRange =
  range_fNElements :: u64
  range_fCompressionSettings :: int

record RClusterDescriptor =
  ContainsColumn :: "DescriptorId_t \<Rightarrow> bool"
  GetColumnRange :: "DescriptorId_t \<Rightarrow> RColumnRange"
  GetPageRange :: "DescriptorId_t \<Rightarrow> RPageInfo list"

record RFieldDescriptor =
  GetId :: DescriptorId_t
  GetParentId :: DescriptorId_t
  GetTypeName :: string

text \<open>
  \<open>ElementSize\<close> stands for
  \<^verbatim>\<open>RColumnElementBase::Generate(colType)->GetSize()\<close>, the size of the default
  in-memory representation of a column type.
\<close>

record RNTupleDescriptor =
  GetNPhysicalColumns :: nat
  GetColumnDescriptor :: "DescriptorId_t \<Rightarrow> RColumnDescriptor"
  GetClusterIterable :: "RClusterDescriptor list"
  GetColumnIterable :: "DescriptorId_t \<Rightarrow> RColumnDescriptor list"
  GetFieldIterable :: "DescriptorId_t \<Rightarrow> RFieldDescriptor list"
  GetFieldDescriptor :: "DescriptorId_t \<Rightarrow> RFieldDescriptor"
  GetFieldZeroId :: DescriptorId_t
  GetNFields :: nat
  ElementSize :: "EColumnType \<Rightarrow> u32"

text \<open>
  A page source hands out its descriptor (\<^verbatim>\<open>Attach\<close>, then
  \<^verbatim>\<open>GetSharedDescriptorGuard()->Clone()\<close>); an ntuple makes a page source. A
  pointer to an ntuple is an option: the null pointer is \<open>None\<close>.
\<close>

record RPageSource =
  GetSharedDescriptor :: RNTupleDescriptor

record RNTuple =
  MakePageSource :: RPageSource

section \<open>The inspector\<close>

text \<open>
  The failures of the source file: an \<^verbatim>\<open>RException\<close> with its message, the
  \<^verbatim>\<open>std::out_of_range\<close> of \<^verbatim>\<open>at()\<close> on a key that is not in the map,
  and the fatal error of a failed \<^verbatim>\<open>R__ASSERT\<close>.
\<close>

datatype error = RException string | std_out_of_range | R__ASSERT_Fatal

text \<open>
  \<^verbatim>\<open>RColumnInfo(colDesc, onDiskSize, elemSize, nElems)\<close> and
  \<^verbatim>\<open>RFieldTreeInfo(fieldDesc, onDiskSize, inMemSize)\<close> are records of their
  constructor arguments.
\<close>

record RColumnInfo =
  col_fDescriptor :: RColumnDescriptor
  col_fOnDiskSize :: u64
  col_fElementSize :: u32
  col_fNElements :: u64

record RFieldTreeInfo =
  fld_fDescriptor :: RFieldDescriptor
  fld_fOnDiskSize :: u64
  fld_fInMemorySize :: u64

subsection \<open>What the descriptor says about one column\<close>

text \<open>
  The clusters that contain a column, in the order of the cluster iteration; the pages of
  the column, cluster after cluster; and the column's range in each of these clusters.
\<close>

definition column_clusters :: "RNTupleDescriptor \<Rightarrow> DescriptorId_t \<Rightarrow> RClusterDescriptor list" where
  "column_clusters d colId = filter (\<lambda>cl. ContainsColumn cl colId) (GetClusterIterable d)"

definition column_pages :: "RNTupleDescriptor \<Rightarrow> DescriptorId_t \<Rightarrow> RPageInfo list" where
  "column_pages d colId = concat (map (\<lambda>cl. GetPageRange cl colId) (column_clusters d colId))"

definition column_ranges :: "RNTupleDescriptor \<Rightarrow> DescriptorId_t \<Rightarrow> RColumnRange list" where
  "column_ranges d colId = map (\<lambda>cl. GetColumnRange cl colId) (column_clusters d colId)"

text \<open>
  Modelled from the spec: \<^verbatim>\<open>RColumnInfo::GetInMemorySize\<close> is declared in the
  header of the inspector, which is not among the sources. The spec gives the in-memory
  size of a column as the sum over its pages of the element count of the page times the
  default in-memory element size for the column's type. The column is the one the
  record's descriptor names.
\<close>

definition GetInMemorySize :: "RNTupleDescriptor \<Rightarrow> RColumnInfo \<Rightarrow> u64" where
  "GetInMemorySize d colInfo =
     sum_list (map (\<lambda>page. page_fNElements page *
                      ucast (ElementSize d (GetType (col_fDescriptor colInfo))))
       (column_pages d (GetPhysicalId (col_fDescriptor colInfo))))"

subsection \<open>The state of the inspector\<close>

text \<open>
  The two maps of the inspector are association lists with unique keys:
  \<^verbatim>\<open>emplace\<close> inserts only where the key is absent, \<^verbatim>\<open>at\<close> throws where
  it is absent. The entries stand in the order of insertion; the source iterates over a
  map only to count entries, which no order changes.
\<close>

definition emplace :: "'k \<Rightarrow> 'v \<Rightarrow> ('k \<times> 'v) list \<Rightarrow> ('k \<times> 'v) list" where
  "emplace k v m = (case map_of m k of None \<Rightarrow> m @ [(k, v)] | Some _ \<Rightarrow> m)"

definition map_at :: "('k \<times> 'v) list \<Rightarrow> 'k \<Rightarrow> error + 'v" where
  "map_at m k = (case map_of m k of None \<Rightarrow> Inl std_out_of_range | Some v \<Rightarrow> Inr v)"

record RNTupleInspector =
  fDescriptor :: RNTupleDescriptor
  fCompressionSettings :: int
  fOnDiskSize :: u64
  fInMemorySize :: u64
  fColumnInfo :: "(DescriptorId_t \<times> RColumnInfo) list"
  fFieldInfo :: "(DescriptorId_t \<times> RFieldTreeInfo) list"

text \<open>
  The constructor (lines 30 to 37) clones the descriptor of the page source. The
  in-class initialisers are in the header: both maps start empty, and
  \<open>fCompressionSettings\<close> starts at \<open>-1\<close>, the value line 62 tests for.
\<close>

definition RNTupleInspector_ctor :: "RPageSource \<Rightarrow> RNTupleInspector" where
  "RNTupleInspector_ctor pageSource =
     \<lparr>fDescriptor = GetSharedDescriptor pageSource, fCompressionSettings = - 1,
      fOnDiskSize = 0, fInMemorySize = 0, fColumnInfo = [], fFieldInfo = []\<rparr>"

subsection \<open>CollectColumnInfo (lines 39 to 79)\<close>

text \<open>The loop over the pages of one cluster (lines 70 to 74).\<close>

fun page_loop :: "u32 \<Rightarrow> RPageInfo list \<Rightarrow> u64 \<times> RNTupleInspector \<Rightarrow> u64 \<times> RNTupleInspector" where
  "page_loop elemSize [] s = s"
| "page_loop elemSize (page # pages) (onDiskSize, insp) =
     page_loop elemSize pages
       (onDiskSize + fBytesOnStorage page,
        insp\<lparr>fOnDiskSize := fOnDiskSize insp + fBytesOnStorage page,
             fInMemorySize := fInMemorySize insp + page_fNElements page * ucast elemSize\<rparr>)"

text \<open>The check of the compression settings (lines 62 to 66).\<close>

definition check_compression :: "RNTupleInspector \<Rightarrow> RColumnRange \<Rightarrow> error + RNTupleInspector" where
  "check_compression insp columnRange =
     (if fCompressionSettings insp = - 1
      then Inr (insp\<lparr>fCompressionSettings := range_fCompressionSettings columnRange\<rparr>)
      else if range_fCompressionSettings columnRange = fCompressionSettings insp
      then Inr insp
      else Inl R__ASSERT_Fatal)"

text \<open>The loop over the clusters, for one column (lines 54 to 75).\<close>

fun cluster_loop ::
  "DescriptorId_t \<Rightarrow> u32 \<Rightarrow> RClusterDescriptor list \<Rightarrow> u64 \<times> u64 \<times> RNTupleInspector
     \<Rightarrow> error + (u64 \<times> u64 \<times> RNTupleInspector)" where
  "cluster_loop colId elemSize [] s = Inr s"
| "cluster_loop colId elemSize (clusterDescriptor # rest) (nElems, onDiskSize, insp) =
     (if \<not> ContainsColumn clusterDescriptor colId
      then cluster_loop colId elemSize rest (nElems, onDiskSize, insp)
      else
        let columnRange = GetColumnRange clusterDescriptor colId;
            nElems' = nElems + range_fNElements columnRange
        in case check_compression insp columnRange of
             Inl e \<Rightarrow> Inl e
           | Inr insp' \<Rightarrow>
               (case page_loop elemSize (GetPageRange clusterDescriptor colId) (onDiskSize, insp') of
                  (onDiskSize', insp'') \<Rightarrow>
                    cluster_loop colId elemSize rest (nElems', onDiskSize', insp'')))"

text \<open>The loop over the physical columns (lines 44 to 78).\<close>

fun column_loop :: "DescriptorId_t list \<Rightarrow> RNTupleInspector \<Rightarrow> error + RNTupleInspector" where
  "column_loop [] insp = Inr insp"
| "column_loop (colId # rest) insp =
     (let colDesc = GetColumnDescriptor (fDescriptor insp) colId;
          colType = GetType colDesc;
          elemSize = ElementSize (fDescriptor insp) colType
      in case cluster_loop colId elemSize (GetClusterIterable (fDescriptor insp)) (0, 0, insp) of
           Inl e \<Rightarrow> Inl e
         | Inr (nElems, onDiskSize, insp') \<Rightarrow>
             column_loop rest
               (insp'\<lparr>fColumnInfo :=
                  emplace colId
                    \<lparr>col_fDescriptor = colDesc, col_fOnDiskSize = onDiskSize,
                     col_fElementSize = elemSize, col_fNElements = nElems\<rparr>
                    (fColumnInfo insp')\<rparr>))"

definition CollectColumnInfo :: "RNTupleInspector \<Rightarrow> error + RNTupleInspector" where
  "CollectColumnInfo insp =
     column_loop [0 ..< GetNPhysicalColumns (fDescriptor insp)]
       (insp\<lparr>fOnDiskSize := 0, fInMemorySize := 0\<rparr>)"

subsection \<open>GetColumnInfo (lines 207 to 215)\<close>

text \<open>\<^verbatim>\<open>std::to_string\<close> on an unsigned number: its decimal digits.\<close>

fun to_string :: "nat \<Rightarrow> string" where
  "to_string n =
     (if n < 10 then [char_of (48 + n)]
      else to_string (n div 10) @ [char_of (48 + n mod 10)])"

declare to_string.simps [simp del]

definition GetColumnInfo :: "RNTupleInspector \<Rightarrow> DescriptorId_t \<Rightarrow> error + RColumnInfo" where
  "GetColumnInfo insp physicalColumnId =
     (if physicalColumnId > GetNPhysicalColumns (fDescriptor insp)
      then Inl (RException (''No column with physical ID '' @ to_string physicalColumnId @ '' present''))
      else map_at (fColumnInfo insp) physicalColumnId)"

subsection \<open>GetFieldInfo by identifier (lines 217 to 225)\<close>

definition GetFieldInfo :: "RNTupleInspector \<Rightarrow> DescriptorId_t \<Rightarrow> error + RFieldTreeInfo" where
  "GetFieldInfo insp fieldId =
     (if fieldId \<ge> GetNFields (fDescriptor insp)
      then Inl (RException (''No field with ID '' @ to_string fieldId @ '' present''))
      else map_at (fFieldInfo insp) fieldId)"

subsection \<open>CollectFieldInfo (lines 81 to 103)\<close>

text \<open>The loop over the columns of a field (lines 85 to 89).\<close>

fun field_columns_loop ::
  "RNTupleInspector \<Rightarrow> RColumnDescriptor list \<Rightarrow> u64 \<times> u64 \<Rightarrow> error + (u64 \<times> u64)" where
  "field_columns_loop insp [] s = Inr s"
| "field_columns_loop insp (colDescriptor # rest) (onDiskSize, inMemSize) =
     (case GetColumnInfo insp (GetPhysicalId colDescriptor) of
        Inl e \<Rightarrow> Inl e
      | Inr colInfo \<Rightarrow>
          field_columns_loop insp rest
            (onDiskSize + col_fOnDiskSize colInfo, inMemSize + GetInMemorySize (fDescriptor insp) colInfo))"

text \<open>
  The function calls itself for every subfield, as deep as the field hierarchy goes, and
  does not return on a hierarchy with a cycle. The model counts the depth down: with
  no depth left the result is \<open>None\<close>. A result \<open>Some (Inl e)\<close> is an exception,
  \<open>Some (Inr (insp', fieldInfo))\<close> the inspector after the call and the returned value.

  The loop over the subfields (lines 91 to 98) takes the recursive call as \<open>rec\<close>.
\<close>

fun subfield_loop ::
  "(RNTupleInspector \<Rightarrow> DescriptorId_t \<Rightarrow> (error + (RNTupleInspector \<times> RFieldTreeInfo)) option)
     \<Rightarrow> RFieldDescriptor list \<Rightarrow> u64 \<times> u64 \<times> RNTupleInspector
     \<Rightarrow> (error + (u64 \<times> u64 \<times> RNTupleInspector)) option" where
  "subfield_loop rec [] s = Some (Inr s)"
| "subfield_loop rec (subFieldDescriptor # rest) (onDiskSize, inMemSize, insp) =
     (case rec insp (GetId subFieldDescriptor) of
        None \<Rightarrow> None
      | Some (Inl e) \<Rightarrow> Some (Inl e)
      | Some (Inr (insp', subFieldInfo)) \<Rightarrow>
          subfield_loop rec rest
            (onDiskSize + fld_fOnDiskSize subFieldInfo,
             inMemSize + fld_fInMemorySize subFieldInfo, insp'))"

primrec CollectFieldInfo ::
  "nat \<Rightarrow> RNTupleInspector \<Rightarrow> DescriptorId_t
     \<Rightarrow> (error + (RNTupleInspector \<times> RFieldTreeInfo)) option" where
  "CollectFieldInfo 0 = (\<lambda>insp fieldId. None)"
| "CollectFieldInfo (Suc depth) = (\<lambda>insp fieldId.
     case field_columns_loop insp (GetColumnIterable (fDescriptor insp) fieldId) (0, 0) of
       Inl e \<Rightarrow> Some (Inl e)
     | Inr (onDiskSize, inMemSize) \<Rightarrow>
         (case subfield_loop (CollectFieldInfo depth)
                 (GetFieldIterable (fDescriptor insp) fieldId) (onDiskSize, inMemSize, insp) of
            None \<Rightarrow> None
          | Some (Inl e) \<Rightarrow> Some (Inl e)
          | Some (Inr (onDiskSize', inMemSize', insp')) \<Rightarrow>
              (let fieldInfo =
                     \<lparr>fld_fDescriptor = GetFieldDescriptor (fDescriptor insp') fieldId,
                      fld_fOnDiskSize = onDiskSize', fld_fInMemorySize = inMemSize'\<rparr>
               in Some (Inr (insp'\<lparr>fFieldInfo := emplace fieldId fieldInfo (fFieldInfo insp')\<rparr>,
                             fieldInfo)))))"

subsection \<open>GetColumnsForFieldTree (lines 105 to 129)\<close>

text \<open>The loop over the columns of the current field (lines 115 to 121).\<close>

fun tree_columns_loop :: "RColumnDescriptor list \<Rightarrow> DescriptorId_t list \<Rightarrow> DescriptorId_t list" where
  "tree_columns_loop [] colIds = colIds"
| "tree_columns_loop (col # rest) colIds =
     (if IsAliasColumn col then tree_columns_loop rest colIds
      else tree_columns_loop rest (colIds @ [GetPhysicalId col]))"

text \<open>The loop over the subfields of the current field (lines 123 to 125).\<close>

fun tree_fields_loop :: "RFieldDescriptor list \<Rightarrow> DescriptorId_t list \<Rightarrow> DescriptorId_t list" where
  "tree_fields_loop [] fieldIdQueue = fieldIdQueue"
| "tree_fields_loop (fld # rest) fieldIdQueue = tree_fields_loop rest (fieldIdQueue @ [GetId fld])"

text \<open>
  The loop over the queue (lines 111 to 126) runs as long as the queue is not empty. The
  model counts its iterations down: \<open>None\<close> when the count is used up before the
  queue is empty.
\<close>

fun queue_loop ::
  "nat \<Rightarrow> RNTupleDescriptor \<Rightarrow> DescriptorId_t list \<Rightarrow> DescriptorId_t list
     \<Rightarrow> DescriptorId_t list option" where
  "queue_loop n descriptor [] colIds = Some colIds"
| "queue_loop 0 descriptor (currId # fieldIdQueue) colIds = None"
| "queue_loop (Suc n) descriptor (currId # fieldIdQueue) colIds =
     queue_loop n descriptor
       (tree_fields_loop (GetFieldIterable descriptor currId) fieldIdQueue)
       (tree_columns_loop (GetColumnIterable descriptor currId) colIds)"

definition GetColumnsForFieldTree ::
  "nat \<Rightarrow> RNTupleInspector \<Rightarrow> DescriptorId_t \<Rightarrow> DescriptorId_t list option" where
  "GetColumnsForFieldTree n insp fieldId = queue_loop n (fDescriptor insp) [fieldId] []"

subsection \<open>Create (lines 131 to 152)\<close>

definition Create ::
  "nat \<Rightarrow> RPageSource \<Rightarrow> (error + RNTupleInspector) option" where
  "Create depth pageSource =
     (let inspector = RNTupleInspector_ctor pageSource
      in case CollectColumnInfo inspector of
           Inl e \<Rightarrow> Some (Inl e)
         | Inr inspector' \<Rightarrow>
             (case CollectFieldInfo depth inspector'
                     (GetFieldZeroId (fDescriptor inspector')) of
                None \<Rightarrow> None
              | Some (Inl e) \<Rightarrow> Some (Inl e)
              | Some (Inr (inspector'', fieldInfo)) \<Rightarrow> Some (Inr inspector'')))"

definition Create_RNTuple ::
  "nat \<Rightarrow> RNTuple option \<Rightarrow> (error + RNTupleInspector) option" where
  "Create_RNTuple depth sourceNTuple =
     (case sourceNTuple of
        None \<Rightarrow> Some (Inl (RException ''provided RNTuple is null''))
      | Some ntuple \<Rightarrow> Create depth (MakePageSource ntuple))"

subsection \<open>GetFieldTypeCount (lines 177 to 192)\<close>

fun type_count_loop ::
  "RNTupleInspector \<Rightarrow> string \<Rightarrow> bool \<Rightarrow> (DescriptorId_t \<times> RFieldTreeInfo) list \<Rightarrow> int \<Rightarrow> int" where
  "type_count_loop insp typeName includeSubFields [] typeCount = typeCount"
| "type_count_loop insp typeName includeSubFields ((fldId, fldInfo) # rest) typeCount =
     (if \<not> includeSubFields \<and>
         GetParentId (fld_fDescriptor fldInfo) \<noteq> GetFieldZeroId (fDescriptor insp)
      then type_count_loop insp typeName includeSubFields rest typeCount
      else if typeName = GetTypeName (fld_fDescriptor fldInfo)
      then type_count_loop insp typeName includeSubFields rest (typeCount + 1)
      else type_count_loop insp typeName includeSubFields rest typeCount)"

definition GetFieldTypeCount :: "RNTupleInspector \<Rightarrow> string \<Rightarrow> bool \<Rightarrow> int" where
  "GetFieldTypeCount insp typeName includeSubFields =
     type_count_loop insp typeName includeSubFields (fFieldInfo insp) 0"

section \<open>Notions used in the statements\<close>

text \<open>
  The compression check replayed on a plain list of settings: from the current setting
  \<open>s\<close>, with \<open>-1\<close> for none yet, the setting after the list, or \<open>None\<close> when
  a value differs from the setting it is compared with.
\<close>

fun settle :: "int \<Rightarrow> int list \<Rightarrow> int option" where
  "settle s [] = Some s"
| "settle s (v # vs) = (if s = - 1 then settle v vs else if v = s then settle s vs else None)"

text \<open>The record of a column, written from the descriptor.\<close>

definition expected_column_info :: "RNTupleDescriptor \<Rightarrow> DescriptorId_t \<Rightarrow> RColumnInfo" where
  "expected_column_info d colId =
     \<lparr>col_fDescriptor = GetColumnDescriptor d colId,
      col_fOnDiskSize = sum_list (map fBytesOnStorage (column_pages d colId)),
      col_fElementSize = ElementSize d (GetType (GetColumnDescriptor d colId)),
      col_fNElements = sum_list (map range_fNElements (column_ranges d colId))\<rparr>"

text \<open>
  The compression settings of the column ranges in the order the column pass reads them:
  column after column, and for each column cluster after cluster.
\<close>

definition visited_settings :: "RNTupleDescriptor \<Rightarrow> int list" where
  "visited_settings d =
     concat (map (\<lambda>colId. map range_fCompressionSettings (column_ranges d colId))
       [0 ..< GetNPhysicalColumns d])"

subsection \<open>What the inspector has stored\<close>

text \<open>The entries of the two maps; they are read only where the key is present.\<close>

definition stored_column :: "RNTupleInspector \<Rightarrow> DescriptorId_t \<Rightarrow> RColumnInfo" where
  "stored_column insp colId = the (map_of (fColumnInfo insp) colId)"

definition stored_field :: "RNTupleInspector \<Rightarrow> DescriptorId_t \<Rightarrow> RFieldTreeInfo" where
  "stored_field insp fieldId = the (map_of (fFieldInfo insp) fieldId)"

text \<open>
  The invariant of the field map. An entry is in order when it carries the descriptor of
  its field, when all direct subfields of the field have entries, and when its two sizes
  are what the loop over the field's columns yields plus the sizes stored for the direct
  subfields. The map is in order when its keys are distinct and every entry is.
  An inspector extends another when only the field map differs and no entry is lost.
\<close>

definition field_entry_ok :: "RNTupleInspector \<Rightarrow> DescriptorId_t \<Rightarrow> RFieldTreeInfo \<Rightarrow> bool" where
  "field_entry_ok insp F info \<longleftrightarrow>
     fld_fDescriptor info = GetFieldDescriptor (fDescriptor insp) F \<and>
     (\<forall>ch\<in>set (GetFieldIterable (fDescriptor insp) F). map_of (fFieldInfo insp) (GetId ch) \<noteq> None) \<and>
     (\<exists>a b. field_columns_loop insp (GetColumnIterable (fDescriptor insp) F) (0, 0) = Inr (a, b) \<and>
        fld_fOnDiskSize info = a + sum_list (map (\<lambda>ch. fld_fOnDiskSize (stored_field insp (GetId ch)))
           (GetFieldIterable (fDescriptor insp) F)) \<and>
        fld_fInMemorySize info = b + sum_list (map (\<lambda>ch. fld_fInMemorySize (stored_field insp (GetId ch)))
           (GetFieldIterable (fDescriptor insp) F)))"

definition fields_ok :: "RNTupleInspector \<Rightarrow> bool" where
  "fields_ok insp \<longleftrightarrow>
     distinct (map fst (fFieldInfo insp)) \<and>
     (\<forall>F info. map_of (fFieldInfo insp) F = Some info \<longrightarrow> field_entry_ok insp F info)"

definition extends :: "RNTupleInspector \<Rightarrow> RNTupleInspector \<Rightarrow> bool" where
  "extends insp insp' \<longleftrightarrow>
     insp' = insp\<lparr>fFieldInfo := fFieldInfo insp'\<rparr> \<and>
     map_of (fFieldInfo insp) \<subseteq>\<^sub>m map_of (fFieldInfo insp')"

subsection \<open>The field hierarchy\<close>

text \<open>
  The fields are linked by identifiers: \<open>child_rel\<close> relates a field to each of its
  direct subfields, and the fields below a field are those reached through it, the
  field itself included.
\<close>

definition child_rel :: "RNTupleDescriptor \<Rightarrow> (DescriptorId_t \<times> DescriptorId_t) set" where
  "child_rel d = {(g, c). c \<in> GetId ` set (GetFieldIterable d g)}"

definition subtree :: "RNTupleDescriptor \<Rightarrow> DescriptorId_t \<Rightarrow> DescriptorId_t set" where
  "subtree d f = (child_rel d)\<^sup>* `` {f}"

text \<open>
  What makes a source well formed for the construction: the compression settings of the
  column ranges agree from the first one that is not \<open>-1\<close> on, and every column
  listed under a field below the root field is a physical column of the source.
\<close>

definition compression_uniform :: "RNTupleDescriptor \<Rightarrow> bool" where
  "compression_uniform d \<longleftrightarrow>
     (case dropWhile (\<lambda>v. v = - 1) (visited_settings d) of
        [] \<Rightarrow> True
      | v # ws \<Rightarrow> list_all (\<lambda>w. w = v) ws)"

definition columns_in_range :: "RNTupleDescriptor \<Rightarrow> bool" where
  "columns_in_range d \<longleftrightarrow>
     (\<forall>h\<in>subtree d (GetFieldZeroId d). \<forall>col\<in>set (GetColumnIterable d h).
        GetPhysicalId col < GetNPhysicalColumns d)"

text \<open>
  All columns under the fields below a field can be looked up; and an inspector keeps
  the descriptor and the column map of another.
\<close>

definition columns_known :: "RNTupleInspector \<Rightarrow> DescriptorId_t \<Rightarrow> bool" where
  "columns_known insp F \<longleftrightarrow>
     (\<forall>h\<in>subtree (fDescriptor insp) F. \<forall>col\<in>set (GetColumnIterable (fDescriptor insp) h).
        \<exists>colInfo. GetColumnInfo insp (GetPhysicalId col) = Inr colInfo)"

definition keeps :: "RNTupleInspector \<Rightarrow> RNTupleInspector \<Rightarrow> bool" where
  "keeps insp insp' \<longleftrightarrow>
     fDescriptor insp' = fDescriptor insp \<and> fColumnInfo insp' = fColumnInfo insp"

text \<open>
  The physical ids of the non-alias columns directly under a field, and the identifiers
  of its direct subfields, in the order of the iterations.
\<close>

definition nonalias_ids :: "RNTupleDescriptor \<Rightarrow> DescriptorId_t \<Rightarrow> DescriptorId_t list" where
  "nonalias_ids d fieldId =
     map GetPhysicalId (filter (\<lambda>col. \<not> IsAliasColumn col) (GetColumnIterable d fieldId))"

definition child_ids :: "RNTupleDescriptor \<Rightarrow> DescriptorId_t \<Rightarrow> DescriptorId_t list" where
  "child_ids d fieldId = map GetId (GetFieldIterable d fieldId)"

text \<open>
  The hierarchy is a tree when it is finite and has no cycle, no field has two parents,
  and no field lists a subfield twice.
\<close>

definition tree_hierarchy :: "RNTupleDescriptor \<Rightarrow> bool" where
  "tree_hierarchy d \<longleftrightarrow>
     finite (child_rel d) \<and> acyclic (child_rel d) \<and> single_valued ((child_rel d)\<inverse>) \<and>
     (\<forall>g. distinct (child_ids d g))"

text \<open>
  A listing of column ids per field lists every id once: no field lists an id twice, and
  no two fields list the same id.
\<close>

definition owned_once :: "(DescriptorId_t \<Rightarrow> DescriptorId_t list) \<Rightarrow> bool" where
  "owned_once ids \<longleftrightarrow>
     (\<forall>g. distinct (ids g)) \<and>
     (\<forall>g h x. x \<in> set (ids g) \<and> x \<in> set (ids h) \<longrightarrow> g = h)"

text \<open>
  The physical ids of all columns directly under a field, alias columns included, and
  the sum of the stored on-disk sizes of these columns.
\<close>

definition all_ids :: "RNTupleDescriptor \<Rightarrow> DescriptorId_t \<Rightarrow> DescriptorId_t list" where
  "all_ids d fieldId = map GetPhysicalId (GetColumnIterable d fieldId)"

definition columns_on_disk :: "RNTupleInspector \<Rightarrow> DescriptorId_t \<Rightarrow> u64" where
  "columns_on_disk insp fieldId =
     sum_list (map (\<lambda>col. col_fOnDiskSize (stored_column insp (GetPhysicalId col)))
       (GetColumnIterable (fDescriptor insp) fieldId))"

section \<open>Example sources\<close>

text \<open>
  A source with two top-level fields: field 1 with physical column 0 (10 elements in two
  pages of 24 and 16 bytes), and field 2 with the subfields 3 and 4, which have the
  columns 1 (5 elements, 10 bytes) and 2 (5 elements, 40 bytes). There is one cluster,
  and elements take 4, 2 and 8 bytes in memory. The inspector below is what
  \<open>Create\<close> returns for it.
\<close>

definition example_field :: "DescriptorId_t \<Rightarrow> RFieldDescriptor" where
  "example_field fieldId =
     (if fieldId = 0 then \<lparr>GetId = 0, GetParentId = 18446744073709551615, GetTypeName = ''''\<rparr>
      else if fieldId = 1 then \<lparr>GetId = 1, GetParentId = 0, GetTypeName = ''int''\<rparr>
      else if fieldId = 2 then \<lparr>GetId = 2, GetParentId = 0, GetTypeName = ''pair''\<rparr>
      else if fieldId = 3 then \<lparr>GetId = 3, GetParentId = 2, GetTypeName = ''short''\<rparr>
      else \<lparr>GetId = fieldId, GetParentId = 2, GetTypeName = ''int''\<rparr>)"

definition example_column :: "DescriptorId_t \<Rightarrow> RColumnDescriptor" where
  "example_column colId = \<lparr>GetType = colId, GetPhysicalId = colId, IsAliasColumn = False\<rparr>"

definition example_cluster :: RClusterDescriptor where
  "example_cluster =
     \<lparr>ContainsColumn = (\<lambda>colId. colId < 3),
      GetColumnRange = (\<lambda>colId.
        \<lparr>range_fNElements = (if colId = 0 then 10 else 5), range_fCompressionSettings = 505\<rparr>),
      GetPageRange = (\<lambda>colId.
        if colId = 0 then [\<lparr>page_fNElements = 6, fBytesOnStorage = 24\<rparr>,
                           \<lparr>page_fNElements = 4, fBytesOnStorage = 16\<rparr>]
        else if colId = 1 then [\<lparr>page_fNElements = 5, fBytesOnStorage = 10\<rparr>]
        else [\<lparr>page_fNElements = 5, fBytesOnStorage = 40\<rparr>])\<rparr>"

definition example_descriptor :: RNTupleDescriptor where
  "example_descriptor =
     \<lparr>GetNPhysicalColumns = 3,
      GetColumnDescriptor = example_column,
      GetClusterIterable = [example_cluster],
      GetColumnIterable = (\<lambda>fieldId.
        if fieldId = 1 then [example_column 0]
        else if fieldId = 3 then [example_column 1]
        else if fieldId = 4 then [example_column 2] else []),
      GetFieldIterable = (\<lambda>fieldId.
        if fieldId = 0 then [example_field 1, example_field 2]
        else if fieldId = 2 then [example_field 3, example_field 4] else []),
      GetFieldDescriptor = example_field,
      GetFieldZeroId = 0,
      GetNFields = 5,
      ElementSize = (\<lambda>colType. if colType = 0 then 4 else if colType = 1 then 2 else 8)\<rparr>"

definition example_source :: RPageSource where
  "example_source = \<lparr>GetSharedDescriptor = example_descriptor\<rparr>"

definition example_columns :: "(DescriptorId_t \<times> RColumnInfo) list" where
  "example_columns =
     [(0, \<lparr>col_fDescriptor = example_column 0, col_fOnDiskSize = 40, col_fElementSize = 4, col_fNElements = 10\<rparr>),
      (1, \<lparr>col_fDescriptor = example_column 1, col_fOnDiskSize = 10, col_fElementSize = 2, col_fNElements = 5\<rparr>),
      (2, \<lparr>col_fDescriptor = example_column 2, col_fOnDiskSize = 40, col_fElementSize = 8, col_fNElements = 5\<rparr>)]"

definition example_fields :: "(DescriptorId_t \<times> RFieldTreeInfo) list" where
  "example_fields =
     [(1, \<lparr>fld_fDescriptor = example_field 1, fld_fOnDiskSize = 40, fld_fInMemorySize = 40\<rparr>),
      (3, \<lparr>fld_fDescriptor = example_field 3, fld_fOnDiskSize = 10, fld_fInMemorySize = 10\<rparr>),
      (4, \<lparr>fld_fDescriptor = example_field 4, fld_fOnDiskSize = 40, fld_fInMemorySize = 40\<rparr>),
      (2, \<lparr>fld_fDescriptor = example_field 2, fld_fOnDiskSize = 50, fld_fInMemorySize = 50\<rparr>),
      (0, \<lparr>fld_fDescriptor = example_field 0, fld_fOnDiskSize = 90, fld_fInMemorySize = 90\<rparr>)]"

definition example_inspector :: RNTupleInspector where
  "example_inspector =
     \<lparr>fDescriptor = example_descriptor, fCompressionSettings = 505,
      fOnDiskSize = 90, fInMemorySize = 90,
      fColumnInfo = example_columns, fFieldInfo = example_fields\<rparr>"

text \<open>The example with the compression setting 5 for column 0 and 7 for the others.\<close>

definition mismatch_cluster :: RClusterDescriptor where
  "mismatch_cluster =
     example_cluster\<lparr>GetColumnRange := (\<lambda>colId.
        \<lparr>range_fNElements = 5, range_fCompressionSettings = (if colId = 0 then 5 else 7)\<rparr>)\<rparr>"

definition mismatch_source :: RPageSource where
  "mismatch_source =
     \<lparr>GetSharedDescriptor = example_descriptor\<lparr>GetClusterIterable := [mismatch_cluster]\<rparr>\<rparr>"

text \<open>
  The example with a projected field: field 5, a further subfield of the root, has one
  alias column that refers to physical column 0.
\<close>

definition alias_field :: RFieldDescriptor where
  "alias_field = \<lparr>GetId = 5, GetParentId = 0, GetTypeName = ''int''\<rparr>"

definition alias_descriptor :: RNTupleDescriptor where
  "alias_descriptor =
     example_descriptor
       \<lparr>GetColumnIterable := (\<lambda>fieldId.
          if fieldId = 5 then [\<lparr>GetType = 0, GetPhysicalId = 0, IsAliasColumn = True\<rparr>]
          else GetColumnIterable example_descriptor fieldId),
        GetFieldIterable := (\<lambda>fieldId.
          if fieldId = 0 then [example_field 1, example_field 2, alias_field]
          else GetFieldIterable example_descriptor fieldId),
        GetFieldDescriptor := (\<lambda>fieldId. if fieldId = 5 then alias_field else example_field fieldId),
        GetNFields := 6\<rparr>"

definition alias_source :: RPageSource where
  "alias_source = \<lparr>GetSharedDescriptor = alias_descriptor\<rparr>"

definition alias_inspector :: RNTupleInspector where
  "alias_inspector =
     \<lparr>fDescriptor = alias_descriptor, fCompressionSettings = 505,
      fOnDiskSize = 90, fInMemorySize = 90,
      fColumnInfo = example_columns,
      fFieldInfo =
        [(1, \<lparr>fld_fDescriptor = example_field 1, fld_fOnDiskSize = 40, fld_fInMemorySize = 40\<rparr>),
         (3, \<lparr>fld_fDescriptor = example_field 3, fld_fOnDiskSize = 10, fld_fInMemorySize = 10\<rparr>),
         (4, \<lparr>fld_fDescriptor = example_field 4, fld_fOnDiskSize = 40, fld_fInMemorySize = 40\<rparr>),
         (2, \<lparr>fld_fDescriptor = example_field 2, fld_fOnDiskSize = 50, fld_fInMemorySize = 50\<rparr>),
         (5, \<lparr>fld_fDescriptor = alias_field, fld_fOnDiskSize = 40, fld_fInMemorySize = 40\<rparr>),
         (0, \<lparr>fld_fDescriptor = example_field 0, fld_fOnDiskSize = 130, fld_fInMemorySize = 130\<rparr>)]\<rparr>"

section \<open>Creation from a null pointer\<close>

text \<open>
  C9. Creating an inspector from a null ntuple pointer throws the exception
  ``provided RNTuple is null'': the result is this failure whatever the depth allowed,
  no page source is made, no descriptor is read and no inspector is returned.
\<close>

theorem C9_null_ntuple:
  "Create_RNTuple depth None = Some (Inl (RException ''provided RNTuple is null''))"
  by (simp add: Create_RNTuple_def)

section \<open>The column pass\<close>

text \<open>
  A sum of 64-bit words is the sum of their values modulo \<open>2 ^ 64\<close>, and the sum
  itself where that stays below \<open>2 ^ 64\<close>.
\<close>

lemma unat_sum_list_u64:
  "unat (sum_list ws) = sum_list (map unat ws) mod 2 ^ 64" for ws :: "u64 list"
proof (induction ws)
  case Nil
  then show ?case by simp
next
  case (Cons w ws)
  have "unat (w + sum_list ws) = (unat w + unat (sum_list ws)) mod 2 ^ 64"
    by (simp add: unat_word_ariths)
  also have "\<dots> = (unat w + sum_list (map unat ws) mod 2 ^ 64) mod 2 ^ 64"
    by (simp only: Cons.IH)
  also have "\<dots> = (unat w + sum_list (map unat ws)) mod 2 ^ 64"
    by (rule mod_add_right_eq)
  finally show ?case by simp
qed

lemma unat_sum_list_exact:
  "sum_list (map unat ws) < 2 ^ 64 \<Longrightarrow> unat (sum_list ws) = sum_list (map unat ws)"
  for ws :: "u64 list"
  by (simp add: unat_sum_list_u64)

lemma page_loop_eq:
  "page_loop e pages (a, insp) =
     (a + sum_list (map fBytesOnStorage pages),
      insp\<lparr>fOnDiskSize := fOnDiskSize insp + sum_list (map fBytesOnStorage pages),
           fInMemorySize := fInMemorySize insp + sum_list (map (\<lambda>p. page_fNElements p * ucast e) pages)\<rparr>)"
  by (induction pages arbitrary: a insp) (simp_all add: algebra_simps)

lemma cluster_loop_Inr:
  "cluster_loop c e cls (n, a, insp) = Inr (n', a', insp') \<Longrightarrow>
     n' = n + sum_list (map (\<lambda>cl. range_fNElements (GetColumnRange cl c)) (filter (\<lambda>cl. ContainsColumn cl c) cls)) \<and>
     a' = a + sum_list (map fBytesOnStorage (concat (map (\<lambda>cl. GetPageRange cl c) (filter (\<lambda>cl. ContainsColumn cl c) cls)))) \<and>
     fOnDiskSize insp' = fOnDiskSize insp + sum_list (map fBytesOnStorage (concat (map (\<lambda>cl. GetPageRange cl c) (filter (\<lambda>cl. ContainsColumn cl c) cls)))) \<and>
     fDescriptor insp' = fDescriptor insp \<and> fColumnInfo insp' = fColumnInfo insp \<and>
     fFieldInfo insp' = fFieldInfo insp"
proof (induction cls arbitrary: n a insp)
  case Nil
  then show ?case by simp
next
  case (Cons cl cls)
  show ?case
  proof (cases "ContainsColumn cl c")
    case False
    with Cons.prems have "cluster_loop c e cls (n, a, insp) = Inr (n', a', insp')" by simp
    from Cons.IH [OF this] False show ?thesis by simp
  next
    case True
    with Cons.prems obtain insp1 where
      chk: "check_compression insp (GetColumnRange cl c) = Inr insp1"
      and rest: "cluster_loop c e cls
          (n + range_fNElements (GetColumnRange cl c),
           a + sum_list (map fBytesOnStorage (GetPageRange cl c)),
           insp1\<lparr>fOnDiskSize := fOnDiskSize insp1 + sum_list (map fBytesOnStorage (GetPageRange cl c)),
             fInMemorySize := fInMemorySize insp1 + sum_list (map (\<lambda>p. page_fNElements p * ucast e) (GetPageRange cl c))\<rparr>)
          = Inr (n', a', insp')"
      by (auto simp: Let_def page_loop_eq split: sum.splits)
    from chk have same: "fOnDiskSize insp1 = fOnDiskSize insp" "fDescriptor insp1 = fDescriptor insp"
      "fColumnInfo insp1 = fColumnInfo insp" "fFieldInfo insp1 = fFieldInfo insp"
      by (auto simp: check_compression_def split: if_splits)
    from Cons.IH [OF rest] True same show ?thesis by (simp add: algebra_simps)
  qed
qed

lemma check_compression_settle:
  "check_compression insp r =
     (case settle (fCompressionSettings insp) [range_fCompressionSettings r] of
        None \<Rightarrow> Inl R__ASSERT_Fatal
      | Some s \<Rightarrow> Inr (insp\<lparr>fCompressionSettings := s\<rparr>))"
  by (simp add: check_compression_def)

lemma settle_append:
  "settle s (xs @ ys) = (case settle s xs of None \<Rightarrow> None | Some s' \<Rightarrow> settle s' ys)"
  by (induction xs arbitrary: s) simp_all

lemma cluster_loop_settle:
  "case settle (fCompressionSettings insp)
          (map (\<lambda>cl. range_fCompressionSettings (GetColumnRange cl c)) (filter (\<lambda>cl. ContainsColumn cl c) cls)) of
     None \<Rightarrow> cluster_loop c e cls (n, a, insp) = Inl R__ASSERT_Fatal
   | Some s \<Rightarrow> (\<exists>n' a' insp'. cluster_loop c e cls (n, a, insp) = Inr (n', a', insp') \<and>
        fCompressionSettings insp' = s)"
proof (induction cls arbitrary: n a insp)
  case Nil
  then show ?case by simp
next
  case (Cons cl cls)
  show ?case
  proof (cases "ContainsColumn cl c")
    case False
    with Cons.IH [of n a insp] show ?thesis by (simp split: option.splits)
  next
    case True
    show ?thesis
    proof (cases "check_compression insp (GetColumnRange cl c)")
      case (Inl err)
      then show ?thesis using True
        by (auto simp: check_compression_def split: if_splits option.splits)
    next
      case (Inr insp1)
      define insp2 where "insp2 = snd (page_loop e (GetPageRange cl c) (a, insp1))"
      have cs: "fCompressionSettings insp2 = fCompressionSettings insp1"
        by (simp add: insp2_def page_loop_eq)
      have s1: "settle (fCompressionSettings insp) (range_fCompressionSettings (GetColumnRange cl c) # vs)
          = settle (fCompressionSettings insp1) vs" for vs
        using Inr by (auto simp: check_compression_def split: if_splits)
      have step: "cluster_loop c e (cl # cls) (n, a, insp) =
          cluster_loop c e cls (n + range_fNElements (GetColumnRange cl c),
             fst (page_loop e (GetPageRange cl c) (a, insp1)), insp2)"
        using True Inr by (simp add: Let_def insp2_def split: prod.splits)
      show ?thesis
        using Cons.IH [of "n + range_fNElements (GetColumnRange cl c)"
            "fst (page_loop e (GetPageRange cl c) (a, insp1))" insp2] True
        unfolding step by (simp add: s1 cs del: settle.simps split: option.splits)
    qed
  qed
qed

lemma emplace_fresh: "k \<notin> fst ` set m \<Longrightarrow> emplace k v m = m @ [(k, v)]"
  by (simp add: emplace_def map_of_eq_None_iff [THEN iffD2])

lemma column_loop_Inr:
  "column_loop cs insp = Inr insp' \<Longrightarrow> distinct cs \<Longrightarrow> set cs \<inter> fst ` set (fColumnInfo insp) = {} \<Longrightarrow>
     fDescriptor insp' = fDescriptor insp \<and> fFieldInfo insp' = fFieldInfo insp \<and>
     fColumnInfo insp' = fColumnInfo insp @ map (\<lambda>c. (c, expected_column_info (fDescriptor insp) c)) cs \<and>
     fOnDiskSize insp' = fOnDiskSize insp +
        sum_list (map (\<lambda>c. sum_list (map fBytesOnStorage (column_pages (fDescriptor insp) c))) cs)"
proof (induction cs arbitrary: insp)
  case Nil
  then show ?case by simp
next
  case (Cons c cs)
  let ?d = "fDescriptor insp"
  let ?e = "ElementSize ?d (GetType (GetColumnDescriptor ?d c))"
  from Cons.prems(1) obtain n a insp1 where
    cl: "cluster_loop c ?e (GetClusterIterable ?d) (0, 0, insp) = Inr (n, a, insp1)"
    and rest: "column_loop cs
        (insp1\<lparr>fColumnInfo := emplace c
           \<lparr>col_fDescriptor = GetColumnDescriptor ?d c, col_fOnDiskSize = a,
            col_fElementSize = ?e, col_fNElements = n\<rparr> (fColumnInfo insp1)\<rparr>) = Inr insp'"
    by (auto simp: Let_def split: sum.splits)
  note f = cluster_loop_Inr [OF cl]
  have info: "\<lparr>col_fDescriptor = GetColumnDescriptor ?d c, col_fOnDiskSize = a,
            col_fElementSize = ?e, col_fNElements = n\<rparr> = expected_column_info ?d c"
    using f by (simp add: expected_column_info_def column_pages_def column_ranges_def
        column_clusters_def comp_def)
  have fresh: "c \<notin> fst ` set (fColumnInfo insp1)"
    using f Cons.prems(3) by auto
  have em: "emplace c (expected_column_info ?d c) (fColumnInfo insp1)
      = fColumnInfo insp @ [(c, expected_column_info ?d c)]"
    using emplace_fresh [OF fresh] f by simp
  have disj: "set cs \<inter> fst ` set (fColumnInfo insp @ [(c, expected_column_info ?d c)]) = {}"
    using Cons.prems(2,3) by auto
  from Cons.prems(2) have dist: "distinct cs" by simp
  from rest have rest': "column_loop cs
        (insp1\<lparr>fColumnInfo := fColumnInfo insp @ [(c, expected_column_info ?d c)]\<rparr>) = Inr insp'"
    by (simp only: info em)
  from Cons.IH [OF rest' dist] disj f
  show ?case
    by (simp add: column_pages_def column_clusters_def algebra_simps)
qed

lemma column_loop_settle:
  "case settle (fCompressionSettings insp)
          (concat (map (\<lambda>c. map range_fCompressionSettings (column_ranges (fDescriptor insp) c)) cs)) of
     None \<Rightarrow> column_loop cs insp = Inl R__ASSERT_Fatal
   | Some s \<Rightarrow> (\<exists>insp'. column_loop cs insp = Inr insp' \<and> fCompressionSettings insp' = s)"
proof (induction cs arbitrary: insp)
  case Nil
  then show ?case by simp
next
  case (Cons c cs)
  let ?d = "fDescriptor insp"
  let ?e = "ElementSize ?d (GetType (GetColumnDescriptor ?d c))"
  let ?vs = "map range_fCompressionSettings (column_ranges ?d c)"
  have vs: "?vs = map (\<lambda>cl. range_fCompressionSettings (GetColumnRange cl c))
      (filter (\<lambda>cl. ContainsColumn cl c) (GetClusterIterable ?d))"
    by (simp add: column_ranges_def column_clusters_def comp_def)
  show ?case
  proof (cases "settle (fCompressionSettings insp) ?vs")
    case None
    with cluster_loop_settle [where insp=insp and c=c and cls="GetClusterIterable ?d" and e="?e" and n=0 and a=0]
    have "cluster_loop c ?e (GetClusterIterable ?d) (0, 0, insp) = Inl R__ASSERT_Fatal"
      by (simp add: vs)
    with None show ?thesis by (simp add: settle_append Let_def)
  next
    case (Some s)
    with cluster_loop_settle [where insp=insp and c=c and cls="GetClusterIterable ?d" and e="?e" and n=0 and a=0]
    obtain n a insp1 where
      cl: "cluster_loop c ?e (GetClusterIterable ?d) (0, 0, insp) = Inr (n, a, insp1)"
      and s: "fCompressionSettings insp1 = s"
      by (auto simp: vs)
    define insp2 where "insp2 = insp1\<lparr>fColumnInfo := emplace c
           \<lparr>col_fDescriptor = GetColumnDescriptor ?d c, col_fOnDiskSize = a,
            col_fElementSize = ?e, col_fNElements = n\<rparr> (fColumnInfo insp1)\<rparr>"
    have d2: "fDescriptor insp2 = ?d" "fCompressionSettings insp2 = s"
      using cluster_loop_Inr [OF cl] s by (simp_all add: insp2_def)
    have step: "column_loop (c # cs) insp = column_loop cs insp2"
      using cl by (simp add: Let_def insp2_def)
    from Cons.IH [where insp=insp2] show ?thesis
      unfolding step by (simp add: settle_append Some d2 split: option.splits)
  qed
qed

lemma CollectColumnInfo_Inr:
  assumes "CollectColumnInfo insp = Inr insp'" and "fColumnInfo insp = []"
  shows "fDescriptor insp' = fDescriptor insp"
    and "fFieldInfo insp' = fFieldInfo insp"
    and "fColumnInfo insp' = map (\<lambda>c. (c, expected_column_info (fDescriptor insp) c))
           [0 ..< GetNPhysicalColumns (fDescriptor insp)]"
    and "fOnDiskSize insp' = sum_list (map (\<lambda>c. sum_list (map fBytesOnStorage (column_pages (fDescriptor insp) c)))
           [0 ..< GetNPhysicalColumns (fDescriptor insp)])"
  using column_loop_Inr [of "[0 ..< GetNPhysicalColumns (fDescriptor insp)]"
      "insp\<lparr>fOnDiskSize := 0, fInMemorySize := 0\<rparr>" insp'] assms
  by (simp_all add: CollectColumnInfo_def)

lemma CollectColumnInfo_settle:
  "case settle (fCompressionSettings insp) (visited_settings (fDescriptor insp)) of
     None \<Rightarrow> CollectColumnInfo insp = Inl R__ASSERT_Fatal
   | Some s \<Rightarrow> (\<exists>insp'. CollectColumnInfo insp = Inr insp' \<and> fCompressionSettings insp' = s)"
  using column_loop_settle [where insp="insp\<lparr>fOnDiskSize := 0, fInMemorySize := 0\<rparr>"
      and cs="[0 ..< GetNPhysicalColumns (fDescriptor insp)]"]
  by (simp add: CollectColumnInfo_def visited_settings_def split: option.splits)

lemma settle_plain: "s \<noteq> - 1 \<Longrightarrow> settle s vs = (if \<forall>w\<in>set vs. w = s then Some s else None)"
  by (induction vs) auto

lemma settle_sentinel:
  "settle (- 1) vs =
     (case dropWhile (\<lambda>v. v = - 1) vs of
        [] \<Rightarrow> Some (- 1)
      | v # ws \<Rightarrow> if \<forall>w\<in>set ws. w = v then Some v else None)"
proof (induction vs)
  case Nil
  then show ?case by simp
next
  case (Cons v vs)
  show ?case
  proof (cases "v = - 1")
    case True
    with Cons show ?thesis by simp
  next
    case False
    then show ?thesis by (simp add: settle_plain)
  qed
qed

lemma map_of_keys: "map_of (map (\<lambda>k. (k, f k)) [0 ..< n]) k = (if k < n then Some (f k) else None)"
  by (simp add: map_of_map_restrict restrict_map_def)

section \<open>The field pass\<close>

lemma extends_refl: "extends insp insp"
  by (simp add: extends_def)

lemma extends_trans: "extends a b \<Longrightarrow> extends b c \<Longrightarrow> extends a c"
  unfolding extends_def
  by (metis (no_types, lifting) RNTupleInspector.surjective RNTupleInspector.update_convs(6) map_le_trans)

lemma extends_same:
  assumes "extends insp insp'"
  shows "fDescriptor insp' = fDescriptor insp" "fColumnInfo insp' = fColumnInfo insp"
    "fCompressionSettings insp' = fCompressionSettings insp"
    "fOnDiskSize insp' = fOnDiskSize insp" "fInMemorySize insp' = fInMemorySize insp"
proof -
  from assms have e: "insp' = insp\<lparr>fFieldInfo := fFieldInfo insp'\<rparr>" by (simp add: extends_def)
  show "fDescriptor insp' = fDescriptor insp" by (subst e) simp
  show "fColumnInfo insp' = fColumnInfo insp" by (subst e) simp
  show "fCompressionSettings insp' = fCompressionSettings insp" by (subst e) simp
  show "fOnDiskSize insp' = fOnDiskSize insp" by (subst e) simp
  show "fInMemorySize insp' = fInMemorySize insp" by (subst e) simp
qed

lemma extends_stored:
  "extends insp insp' \<Longrightarrow> map_of (fFieldInfo insp) F = Some info \<Longrightarrow> map_of (fFieldInfo insp') F = Some info"
  by (auto simp: extends_def map_le_def dom_def)

lemma field_columns_loop_cong:
  "fDescriptor insp' = fDescriptor insp \<Longrightarrow> fColumnInfo insp' = fColumnInfo insp \<Longrightarrow>
     field_columns_loop insp' cols s = field_columns_loop insp cols s"
  by (induction insp cols s rule: field_columns_loop.induct)
    (simp_all add: GetColumnInfo_def split: sum.splits)

lemma field_entry_ok_mono:
  assumes "extends insp insp'" and "field_entry_ok insp F info"
  shows "field_entry_ok insp' F info"
proof -
  note same = extends_same [OF assms(1)]
  have st: "stored_field insp' (GetId ch) = stored_field insp (GetId ch)"
    if "ch \<in> set (GetFieldIterable (fDescriptor insp) F)" for ch
  proof -
    from assms(2) that obtain i where "map_of (fFieldInfo insp) (GetId ch) = Some i"
      by (auto simp: field_entry_ok_def)
    with extends_stored [OF assms(1) this] show ?thesis by (simp add: stored_field_def)
  qed
  have sums: "map (\<lambda>ch. g (stored_field insp' (GetId ch))) (GetFieldIterable (fDescriptor insp) F)
      = map (\<lambda>ch. g (stored_field insp (GetId ch))) (GetFieldIterable (fDescriptor insp) F)"
    for g :: "RFieldTreeInfo \<Rightarrow> u64"
    using st by simp
  have kids: "\<forall>ch\<in>set (GetFieldIterable (fDescriptor insp) F). map_of (fFieldInfo insp') (GetId ch) \<noteq> None"
  proof
    fix ch assume "ch \<in> set (GetFieldIterable (fDescriptor insp) F)"
    with assms(2) obtain i where "map_of (fFieldInfo insp) (GetId ch) = Some i"
      by (auto simp: field_entry_ok_def)
    from extends_stored [OF assms(1) this] show "map_of (fFieldInfo insp') (GetId ch) \<noteq> None" by simp
  qed
  from assms(2) kids show ?thesis
    unfolding field_entry_ok_def same sums
    by (simp add: field_columns_loop_cong [OF same(1) same(2)])
qed

lemma subfield_loop_ok:
  assumes r: "\<And>insp F insp' info. rec insp F = Some (Inr (insp', info)) \<Longrightarrow> fields_ok insp \<Longrightarrow>
      fields_ok insp' \<and> extends insp insp' \<and> map_of (fFieldInfo insp') F = Some info"
  shows "subfield_loop rec chs (a, b, insp) = Some (Inr (a', b', insp')) \<Longrightarrow> fields_ok insp \<Longrightarrow>
      fields_ok insp' \<and> extends insp insp' \<and>
      (\<forall>ch\<in>set chs. map_of (fFieldInfo insp') (GetId ch) \<noteq> None) \<and>
      a' = a + sum_list (map (\<lambda>ch. fld_fOnDiskSize (stored_field insp' (GetId ch))) chs) \<and>
      b' = b + sum_list (map (\<lambda>ch. fld_fInMemorySize (stored_field insp' (GetId ch))) chs)"
proof (induction chs arbitrary: a b insp)
  case Nil
  then show ?case by (simp add: extends_refl)
next
  case (Cons ch chs)
  from Cons.prems(1) obtain insp1 info1 where
    call: "rec insp (GetId ch) = Some (Inr (insp1, info1))"
    and rest: "subfield_loop rec chs
        (a + fld_fOnDiskSize info1, b + fld_fInMemorySize info1, insp1) = Some (Inr (a', b', insp'))"
    by (auto split: option.splits sum.splits)
  from r [OF call Cons.prems(2)] have ok1: "fields_ok insp1" and ex1: "extends insp insp1"
    and st1: "map_of (fFieldInfo insp1) (GetId ch) = Some info1" by simp_all
  from Cons.IH [OF rest ok1] have ok': "fields_ok insp'" and ex': "extends insp1 insp'"
    and kids: "\<forall>ch\<in>set chs. map_of (fFieldInfo insp') (GetId ch) \<noteq> None"
    and a': "a' = a + fld_fOnDiskSize info1 + sum_list (map (\<lambda>ch. fld_fOnDiskSize (stored_field insp' (GetId ch))) chs)"
    and b': "b' = b + fld_fInMemorySize info1 + sum_list (map (\<lambda>ch. fld_fInMemorySize (stored_field insp' (GetId ch))) chs)"
    by simp_all
  from extends_stored [OF ex' st1] have st': "map_of (fFieldInfo insp') (GetId ch) = Some info1" .
  then have "stored_field insp' (GetId ch) = info1" by (simp add: stored_field_def)
  with ok' extends_trans [OF ex1 ex'] kids st' a' b' show ?case
    by (simp add: add.assoc)
qed

lemma CollectFieldInfo_ok:
  "CollectFieldInfo depth insp F = Some (Inr (insp', info)) \<Longrightarrow> fields_ok insp \<Longrightarrow>
     fields_ok insp' \<and> extends insp insp' \<and> map_of (fFieldInfo insp') F = Some info"
proof (induction depth arbitrary: insp F insp' info)
  case 0
  then show ?case by simp
next
  case (Suc depth)
  let ?d = "fDescriptor insp"
  from Suc.prems(1) obtain a0 b0 a b insp2 where
    cols: "field_columns_loop insp (GetColumnIterable ?d F) (0, 0) = Inr (a0, b0)"
    and loop: "subfield_loop (CollectFieldInfo depth) (GetFieldIterable ?d F) (a0, b0, insp)
        = Some (Inr (a, b, insp2))"
    and info: "info = \<lparr>fld_fDescriptor = GetFieldDescriptor (fDescriptor insp2) F,
        fld_fOnDiskSize = a, fld_fInMemorySize = b\<rparr>"
    and insp': "insp' = insp2\<lparr>fFieldInfo := emplace F info (fFieldInfo insp2)\<rparr>"
    by (auto simp: Let_def split: sum.splits option.splits prod.splits)
  from subfield_loop_ok [where rec = "CollectFieldInfo depth", OF Suc.IH loop Suc.prems(2)]
  have ok2: "fields_ok insp2" and ex2: "extends insp insp2"
    and kids: "\<forall>ch\<in>set (GetFieldIterable ?d F). map_of (fFieldInfo insp2) (GetId ch) \<noteq> None"
    and a: "a = a0 + sum_list (map (\<lambda>ch. fld_fOnDiskSize (stored_field insp2 (GetId ch))) (GetFieldIterable ?d F))"
    and b: "b = b0 + sum_list (map (\<lambda>ch. fld_fInMemorySize (stored_field insp2 (GetId ch))) (GetFieldIterable ?d F))"
    by simp_all
  note same = extends_same [OF ex2]
  have entry: "field_entry_ok insp2 F info"
    unfolding field_entry_ok_def same
    using kids cols a b
    by (simp add: info same field_columns_loop_cong [OF same(1) same(2)])
  show ?case
  proof (cases "map_of (fFieldInfo insp2) F")
    case None
    then have em: "fFieldInfo insp' = fFieldInfo insp2 @ [(F, info)]"
      by (simp add: insp' emplace_def)
    have ex: "extends insp2 insp'"
      using None by (auto simp: extends_def insp' em emplace_def map_le_def dom_def map_add_def split: option.splits)
    have dist: "distinct (map fst (fFieldInfo insp'))"
      using ok2 None by (simp add: fields_ok_def em map_of_eq_None_iff)
    have "fields_ok insp'"
      unfolding fields_ok_def
    proof (intro conjI allI impI dist)
      fix G i assume g: "map_of (fFieldInfo insp') G = Some i"
      show "field_entry_ok insp' G i"
      proof (cases "map_of (fFieldInfo insp2) G")
        case (Some j)
        with g have "i = j" by (simp add: em map_add_def)
        with Some ok2 have "field_entry_ok insp2 G i" by (simp add: fields_ok_def)
        then show ?thesis by (rule field_entry_ok_mono [OF ex])
      next
        case None
        with g have "G = F" "i = info" by (auto simp: em map_add_def split: if_splits)
        with entry show ?thesis by (simp add: field_entry_ok_mono [OF ex])
      qed
    qed
    moreover have "map_of (fFieldInfo insp') F = Some info"
      using None by (simp add: em map_add_def)
    ultimately show ?thesis using extends_trans [OF ex2 ex] by simp
  next
    case (Some info0)
    then have eq: "insp' = insp2" by (simp add: insp' emplace_def)
    from Some ok2 have e0: "field_entry_ok insp2 F info0" by (simp add: fields_ok_def)
    have "info0 = info"
      using e0 entry by (auto simp: field_entry_ok_def intro: RFieldTreeInfo.equality)
    with Some ok2 ex2 show ?thesis by (simp add: eq)
  qed
qed

section \<open>The example source\<close>

lemma example_field_sel:
  "GetId (example_field f) = f"
  "GetParentId (example_field f) = (if f = 0 then 18446744073709551615 else if f = 1 \<or> f = 2 then 0 else 2)"
  by (simp_all add: example_field_def)

lemma example_cluster_sel:
  "ContainsColumn example_cluster c = (c < 3)"
  "GetColumnRange example_cluster c =
     \<lparr>range_fNElements = (if c = 0 then 10 else 5), range_fCompressionSettings = 505\<rparr>"
  "GetPageRange example_cluster c =
     (if c = 0 then [\<lparr>page_fNElements = 6, fBytesOnStorage = 24\<rparr>,
                           \<lparr>page_fNElements = 4, fBytesOnStorage = 16\<rparr>]
        else if c = 1 then [\<lparr>page_fNElements = 5, fBytesOnStorage = 10\<rparr>]
        else [\<lparr>page_fNElements = 5, fBytesOnStorage = 40\<rparr>])"
  by (simp_all add: example_cluster_def)

lemma example_descriptor_sel:
  "GetNPhysicalColumns example_descriptor = 3"
  "GetColumnDescriptor example_descriptor = example_column"
  "GetClusterIterable example_descriptor = [example_cluster]"
  "GetColumnIterable example_descriptor f =
     (if f = 1 then [example_column 0]
        else if f = 3 then [example_column 1]
        else if f = 4 then [example_column 2] else [])"
  "GetFieldIterable example_descriptor f =
     (if f = 0 then [example_field 1, example_field 2]
        else if f = 2 then [example_field 3, example_field 4] else [])"
  "GetFieldDescriptor example_descriptor = example_field"
  "GetFieldZeroId example_descriptor = 0"
  "GetNFields example_descriptor = 5"
  "ElementSize example_descriptor t = (if t = 0 then 4 else if t = 1 then 2 else 8)"
  by (simp_all add: example_descriptor_def)

lemma example_column_sel:
  "GetType (example_column c) = c" "GetPhysicalId (example_column c) = c"
  "IsAliasColumn (example_column c) = False"
  by (simp_all add: example_column_def)

lemma upt_0_3: "[0 ..< 3] = [0, 1, 2]"
  by (simp add: upt_rec)

lemma example_CollectColumnInfo:
  "CollectColumnInfo (RNTupleInspector_ctor example_source) =
     Inr (example_inspector\<lparr>fFieldInfo := []\<rparr>)"
  by (simp add: CollectColumnInfo_def RNTupleInspector_ctor_def example_source_def
      example_descriptor_sel example_cluster_sel example_inspector_def example_columns_def
      check_compression_def emplace_def Let_def upt_0_3 example_column_sel)

lemma example_CollectFieldInfo:
  "CollectFieldInfo (Suc (Suc (Suc 0))) (example_inspector\<lparr>fFieldInfo := []\<rparr>) 0 =
     Some (Inr (example_inspector, stored_field example_inspector 0))"
  by (simp add: example_inspector_def example_descriptor_sel example_columns_def
      example_fields_def example_column_sel example_field_sel stored_field_def
      GetColumnInfo_def map_at_def GetInMemorySize_def column_pages_def column_clusters_def
      example_cluster_sel emplace_def Let_def)

lemma example_Create: "Create (Suc (Suc (Suc 0))) example_source = Some (Inr example_inspector)"
proof -
  have z: "GetFieldZeroId (fDescriptor (example_inspector\<lparr>fFieldInfo := []\<rparr>)) = 0"
    by (simp add: example_inspector_def example_descriptor_sel)
  show ?thesis
    unfolding Create_def Let_def example_CollectColumnInfo
    by (simp only: sum.case z example_CollectFieldInfo option.case prod.case)
qed

lemma subtree_self: "f \<in> subtree d f"
  by (simp add: subtree_def)

lemma subtree_child:
  "ch \<in> set (GetFieldIterable d f) \<Longrightarrow> subtree d (GetId ch) \<subseteq> subtree d f"
  unfolding subtree_def child_rel_def
  by (auto intro: converse_rtrancl_into_rtrancl)

lemma subset_chain: "B \<subseteq> A \<union> S \<Longrightarrow> C \<subseteq> B \<union> U \<Longrightarrow> C \<subseteq> A \<union> (S \<union> U)"
  by blast

lemma subset_insert_chain:
  "E \<subseteq> insert F B \<Longrightarrow> B \<subseteq> A \<union> U \<Longrightarrow> U \<subseteq> T \<Longrightarrow> F \<in> T \<Longrightarrow> E \<subseteq> A \<union> T"
  by blast

lemma subfield_loop_keys:
  assumes r: "\<And>insp F insp' info. rec insp F = Some (Inr (insp', info)) \<Longrightarrow>
      fDescriptor insp' = fDescriptor insp \<and>
      fst ` set (fFieldInfo insp') \<subseteq> fst ` set (fFieldInfo insp) \<union> subtree (fDescriptor insp) F"
  shows "subfield_loop rec chs (a, b, insp) = Some (Inr (a', b', insp')) \<Longrightarrow>
      fDescriptor insp' = fDescriptor insp \<and>
      fst ` set (fFieldInfo insp') \<subseteq>
        fst ` set (fFieldInfo insp) \<union> (\<Union>ch\<in>set chs. subtree (fDescriptor insp) (GetId ch))"
proof (induction chs arbitrary: a b insp)
  case Nil
  then show ?case by simp
next
  case (Cons ch chs)
  from Cons.prems(1) obtain insp1 info1 where
    call: "rec insp (GetId ch) = Some (Inr (insp1, info1))"
    and rest: "subfield_loop rec chs
        (a + fld_fOnDiskSize info1, b + fld_fInMemorySize info1, insp1) = Some (Inr (a', b', insp'))"
    by (auto split: option.splits sum.splits)
  from r [OF call] have d1: "fDescriptor insp1 = fDescriptor insp"
    and k1: "fst ` set (fFieldInfo insp1) \<subseteq>
        fst ` set (fFieldInfo insp) \<union> subtree (fDescriptor insp) (GetId ch)"
    by simp_all
  from Cons.IH [OF rest] have d': "fDescriptor insp' = fDescriptor insp"
    and k': "fst ` set (fFieldInfo insp') \<subseteq>
        fst ` set (fFieldInfo insp1) \<union> (\<Union>ch\<in>set chs. subtree (fDescriptor insp) (GetId ch))"
    by (simp_all add: d1)
  from subset_chain [OF k1 k'] d' show ?case by simp
qed

lemma CollectFieldInfo_keys:
  "CollectFieldInfo depth insp F = Some (Inr (insp', info)) \<Longrightarrow>
     fDescriptor insp' = fDescriptor insp \<and>
     fst ` set (fFieldInfo insp') \<subseteq> fst ` set (fFieldInfo insp) \<union> subtree (fDescriptor insp) F"
proof (induction depth arbitrary: insp F insp' info)
  case 0
  then show ?case by simp
next
  case (Suc depth)
  let ?d = "fDescriptor insp"
  from Suc.prems(1) obtain a0 b0 a b insp2 where
    loop: "subfield_loop (CollectFieldInfo depth) (GetFieldIterable ?d F) (a0, b0, insp)
        = Some (Inr (a, b, insp2))"
    and insp': "insp' = insp2\<lparr>fFieldInfo := emplace F info (fFieldInfo insp2)\<rparr>"
    by (auto simp: Let_def split: sum.splits option.splits prod.splits)
  from subfield_loop_keys [where rec = "CollectFieldInfo depth", OF Suc.IH loop]
  have d2: "fDescriptor insp2 = ?d"
    and k2: "fst ` set (fFieldInfo insp2) \<subseteq>
        fst ` set (fFieldInfo insp) \<union> (\<Union>ch\<in>set (GetFieldIterable ?d F). subtree ?d (GetId ch))"
    by simp_all
  have e: "fst ` set (emplace F info (fFieldInfo insp2)) \<subseteq> insert F (fst ` set (fFieldInfo insp2))"
    by (auto simp: emplace_def split: option.splits)
  have u: "(\<Union>ch\<in>set (GetFieldIterable ?d F). subtree ?d (GetId ch)) \<subseteq> subtree ?d F"
    using subtree_child [of _ ?d F] by (rule UN_least)
  from subset_insert_chain [OF e k2 u subtree_self] d2 show ?case by (simp add: insp')
qed

lemma fields_ok_closed:
  assumes "fields_ok insp" and "(F, G) \<in> (child_rel (fDescriptor insp))\<^sup>*"
    and "map_of (fFieldInfo insp) F \<noteq> None"
  shows "map_of (fFieldInfo insp) G \<noteq> None"
  using assms(2,3)
proof (induction rule: rtrancl_induct)
  case base
  then show ?case .
next
  case (step G H)
  then obtain i where "map_of (fFieldInfo insp) G = Some i" by auto
  with assms(1) have "field_entry_ok insp G i" by (simp add: fields_ok_def)
  with step.hyps(2) show ?case
    by (auto simp: field_entry_ok_def child_rel_def)
qed

lemma Create_facts:
  assumes "Create depth pageSource = Some (Inr insp)"
  shows "fDescriptor insp = GetSharedDescriptor pageSource"
    and "fColumnInfo insp = map (\<lambda>c. (c, expected_column_info (fDescriptor insp) c))
           [0 ..< GetNPhysicalColumns (fDescriptor insp)]"
    and "fOnDiskSize insp = sum_list (map (\<lambda>c. sum_list (map fBytesOnStorage (column_pages (fDescriptor insp) c)))
           [0 ..< GetNPhysicalColumns (fDescriptor insp)])"
    and "fields_ok insp"
    and "dom (map_of (fFieldInfo insp)) = subtree (fDescriptor insp) (GetFieldZeroId (fDescriptor insp))"
proof -
  let ?c = "RNTupleInspector_ctor pageSource"
  let ?d = "GetSharedDescriptor pageSource"
  from assms obtain insp1 info where
    cols: "CollectColumnInfo ?c = Inr insp1"
    and flds: "CollectFieldInfo depth insp1 (GetFieldZeroId (fDescriptor insp1)) = Some (Inr (insp, info))"
    by (auto simp: Create_def Let_def split: sum.splits option.splits)
  have c0: "fColumnInfo ?c = []" "fDescriptor ?c = ?d" "fFieldInfo ?c = []"
    by (simp_all add: RNTupleInspector_ctor_def)
  note f1 = CollectColumnInfo_Inr [OF cols c0(1), unfolded c0]
  have ok1: "fields_ok insp1" by (simp add: fields_ok_def f1)
  from CollectFieldInfo_ok [OF flds ok1] have ok: "fields_ok insp" and ex: "extends insp1 insp"
    and root: "map_of (fFieldInfo insp) (GetFieldZeroId (fDescriptor insp1)) = Some info" by simp_all
  note same = extends_same [OF ex]
  show d: "fDescriptor insp = ?d" by (simp add: same f1)
  show "fColumnInfo insp = map (\<lambda>c. (c, expected_column_info (fDescriptor insp) c))
           [0 ..< GetNPhysicalColumns (fDescriptor insp)]"
    by (simp add: same f1)
  show "fOnDiskSize insp = sum_list (map (\<lambda>c. sum_list (map fBytesOnStorage (column_pages (fDescriptor insp) c)))
           [0 ..< GetNPhysicalColumns (fDescriptor insp)])"
    by (simp add: same f1)
  show "fields_ok insp" by (rule ok)
  show "dom (map_of (fFieldInfo insp)) = subtree (fDescriptor insp) (GetFieldZeroId (fDescriptor insp))"
  proof
    from CollectFieldInfo_keys [OF flds]
    show "dom (map_of (fFieldInfo insp)) \<subseteq> subtree (fDescriptor insp) (GetFieldZeroId (fDescriptor insp))"
      by (simp add: f1 d dom_map_of_conv_image_fst)
    show "subtree (fDescriptor insp) (GetFieldZeroId (fDescriptor insp)) \<subseteq> dom (map_of (fFieldInfo insp))"
    proof
      fix G assume "G \<in> subtree (fDescriptor insp) (GetFieldZeroId (fDescriptor insp))"
      then have "(GetFieldZeroId (fDescriptor insp), G) \<in> (child_rel (fDescriptor insp))\<^sup>*"
        by (simp add: subtree_def)
      from fields_ok_closed [OF ok this] root show "G \<in> dom (map_of (fFieldInfo insp))"
        by (auto simp: same)
    qed
  qed
qed

lemma field_columns_loop_Inr:
  "field_columns_loop insp cols (a, b) = Inr (a', b') \<Longrightarrow>
     (\<forall>col\<in>set cols. GetColumnInfo insp (GetPhysicalId col) = Inr (stored_column insp (GetPhysicalId col))) \<and>
     a' = a + sum_list (map (\<lambda>col. col_fOnDiskSize (stored_column insp (GetPhysicalId col))) cols) \<and>
     b' = b + sum_list (map (\<lambda>col. GetInMemorySize (fDescriptor insp) (stored_column insp (GetPhysicalId col))) cols)"
proof (induction cols arbitrary: a b)
  case Nil
  then show ?case by simp
next
  case (Cons col cols)
  from Cons.prems obtain ci where
    g: "GetColumnInfo insp (GetPhysicalId col) = Inr ci"
    and rest: "field_columns_loop insp cols (a + col_fOnDiskSize ci, b + GetInMemorySize (fDescriptor insp) ci) = Inr (a', b')"
    by (auto split: sum.splits)
  from g have "stored_column insp (GetPhysicalId col) = ci"
    by (auto simp: GetColumnInfo_def map_at_def stored_column_def split: if_splits option.splits)
  with g Cons.IH [OF rest] show ?case by (simp add: add.assoc)
qed

section \<open>The field pass returns\<close>

lemma keeps_refl: "keeps insp insp"
  by (simp add: keeps_def)

lemma keeps_trans: "keeps a b \<Longrightarrow> keeps b c \<Longrightarrow> keeps a c"
  by (simp add: keeps_def)

lemma keeps_known: "keeps insp insp' \<Longrightarrow> columns_known insp' F = columns_known insp F"
  by (simp add: keeps_def columns_known_def GetColumnInfo_def)

lemma columns_known_child:
  "columns_known insp F \<Longrightarrow> ch \<in> set (GetFieldIterable (fDescriptor insp) F) \<Longrightarrow>
     columns_known insp (GetId ch)"
  using subtree_child [of ch "fDescriptor insp" F]
  by (auto simp: columns_known_def)

lemma field_columns_loop_succeeds:
  "\<forall>col\<in>set cols. \<exists>colInfo. GetColumnInfo insp (GetPhysicalId col) = Inr colInfo \<Longrightarrow>
     \<exists>a b. field_columns_loop insp cols s = Inr (a, b)"
proof (induction cols arbitrary: s)
  case Nil
  then show ?case by (cases s) simp
next
  case (Cons col cols)
  obtain a b where s: "s = (a, b)" by (cases s)
  from Cons.prems obtain ci where "GetColumnInfo insp (GetPhysicalId col) = Inr ci" by auto
  with Cons.IH Cons.prems show ?case by (simp add: s)
qed

lemma subfield_loop_mono:
  assumes "\<And>insp F r. rec insp F = Some r \<Longrightarrow> rec' insp F = Some r"
  shows "subfield_loop rec chs s = Some r \<Longrightarrow> subfield_loop rec' chs s = Some r"
proof (induction chs arbitrary: s)
  case Nil
  then show ?case by simp
next
  case (Cons ch chs)
  obtain a b insp where s: "s = (a, b, insp)" by (cases s)
  from Cons.prems obtain x where x: "rec insp (GetId ch) = Some x"
    by (auto simp: s split: option.splits)
  note x' = assms [OF x]
  show ?case
  proof (cases x)
    case (Inl e)
    with Cons.prems x x' show ?thesis by (simp add: s)
  next
    case (Inr p)
    obtain insp1 info1 where p: "p = (insp1, info1)" by (cases p)
    from Cons.prems x Inr p have "subfield_loop rec chs
        (a + fld_fOnDiskSize info1, b + fld_fInMemorySize info1, insp1) = Some r"
      by (simp add: s)
    from Cons.IH [OF this] x' Inr p show ?thesis by (simp add: s)
  qed
qed

lemma CollectFieldInfo_mono:
  "CollectFieldInfo n insp F = Some r \<Longrightarrow> n \<le> m \<Longrightarrow> CollectFieldInfo m insp F = Some r"
proof (induction n arbitrary: m insp F r)
  case 0
  then show ?case by simp
next
  case (Suc n)
  from Suc.prems(2) obtain m' where m: "m = Suc m'" and le: "n \<le> m'"
    by (cases m) auto
  let ?d = "fDescriptor insp"
  show ?case
  proof (cases "field_columns_loop insp (GetColumnIterable ?d F) (0, 0)")
    case (Inl e)
    with Suc.prems(1) show ?thesis by (simp add: m)
  next
    case (Inr ab)
    obtain a b where ab: "ab = (a, b)" by (cases ab)
    from Suc.prems(1) Inr ab obtain x where
      x: "subfield_loop (CollectFieldInfo n) (GetFieldIterable ?d F) (a, b, insp) = Some x"
      by (auto split: option.splits)
    have "subfield_loop (CollectFieldInfo m') (GetFieldIterable ?d F) (a, b, insp) = Some x"
      by (rule subfield_loop_mono [OF _ x]) (rule Suc.IH [OF _ le])
    with Suc.prems(1) Inr ab x show ?thesis by (simp add: m)
  qed
qed

lemma subfield_loop_returns:
  assumes ret: "\<And>insp ch. ch \<in> set chs \<Longrightarrow> fDescriptor insp = d \<Longrightarrow>
      \<exists>r. rec insp (GetId ch) = Some r"
    and frame: "\<And>insp F insp' info. rec insp F = Some (Inr (insp', info)) \<Longrightarrow>
      fDescriptor insp' = fDescriptor insp"
  shows "fDescriptor insp = d \<Longrightarrow> \<exists>r. subfield_loop rec chs (a, b, insp) = Some r"
  using ret
proof (induction chs arbitrary: a b insp)
  case Nil
  then show ?case by simp
next
  case (Cons ch chs)
  from Cons.prems(2) [of ch insp] Cons.prems(1) obtain x where
    x: "rec insp (GetId ch) = Some x" by auto
  show ?case
  proof (cases x)
    case (Inl e)
    with x show ?thesis by simp
  next
    case (Inr p)
    obtain insp1 info1 where p: "p = (insp1, info1)" by (cases p)
    from frame x Inr p Cons.prems(1) have d1: "fDescriptor insp1 = d" by simp
    have "\<exists>r. subfield_loop rec chs
        (a + fld_fOnDiskSize info1, b + fld_fInMemorySize info1, insp1) = Some r"
      by (rule Cons.IH [OF d1]) (simp add: Cons.prems(2))
    with x Inr p show ?thesis by simp
  qed
qed

lemma bound_for_all:
  fixes P :: "nat \<Rightarrow> 'c \<Rightarrow> bool"
  assumes "\<And>c. c \<in> set cs \<Longrightarrow> \<exists>n. P n c"
    and "\<And>n m c. P n c \<Longrightarrow> n \<le> m \<Longrightarrow> P m c"
  shows "\<exists>n. \<forall>c\<in>set cs. P n c"
  using assms(1)
proof (induction cs)
  case Nil
  then show ?case by simp
next
  case (Cons c cs)
  from Cons.IH Cons.prems obtain n where n: "\<forall>c\<in>set cs. P n c" by auto
  from Cons.prems obtain k where k: "P k c" by auto
  have "P (max n k) c'" if "c' \<in> set (c # cs)" for c'
  proof (cases "c' = c")
    case True
    with assms(2) [OF k, of "max n k"] show ?thesis by simp
  next
    case False
    with that n have "P n c'" by simp
    from assms(2) [OF this, of "max n k"] show ?thesis by simp
  qed
  then show ?case by blast
qed

lemma CollectFieldInfo_returns:
  assumes "wf ((child_rel d)\<inverse>)"
  shows "\<exists>n. \<forall>insp. fDescriptor insp = d \<longrightarrow> (\<exists>r. CollectFieldInfo n insp F = Some r)"
  using assms
proof (induction F rule: wf_induct_rule)
  case (less F)
  let ?P = "\<lambda>n c. \<forall>insp. fDescriptor insp = d \<longrightarrow> (\<exists>r. CollectFieldInfo n insp c = Some r)"
  have "\<exists>n. \<forall>c\<in>set (map GetId (GetFieldIterable d F)). ?P n c"
  proof (rule bound_for_all)
    fix c assume "c \<in> set (map GetId (GetFieldIterable d F))"
    then have "(c, F) \<in> (child_rel d)\<inverse>"
      by (simp add: child_rel_def)
    then show "\<exists>n. ?P n c" by (rule less.IH)
  next
    fix n m c assume "?P n c" and "n \<le> m"
    then show "?P m c" by (blast intro: CollectFieldInfo_mono)
  qed
  then obtain n where n: "\<forall>c\<in>set (map GetId (GetFieldIterable d F)). ?P n c" ..
  have "\<exists>r. CollectFieldInfo (Suc n) insp F = Some r" if d: "fDescriptor insp = d" for insp
  proof (cases "field_columns_loop insp (GetColumnIterable d F) (0, 0)")
    case (Inl e)
    then show ?thesis by (simp add: d)
  next
    case (Inr ab)
    obtain a b where ab: "ab = (a, b)" by (cases ab)
    have "\<exists>r. subfield_loop (CollectFieldInfo n) (GetFieldIterable d F) (a, b, insp) = Some r"
    proof (rule subfield_loop_returns [OF _ _ d])
      fix insp' :: RNTupleInspector and ch
      assume "ch \<in> set (GetFieldIterable d F)" and "fDescriptor insp' = d"
      with n show "\<exists>r. CollectFieldInfo n insp' (GetId ch) = Some r"
        by simp
    next
      fix insp1 insp' :: RNTupleInspector and G info
      assume "CollectFieldInfo n insp1 G = Some (Inr (insp', info))"
      from CollectFieldInfo_keys [OF this] show "fDescriptor insp' = fDescriptor insp1" by simp
    qed
    then obtain x where "subfield_loop (CollectFieldInfo n) (GetFieldIterable d F) (a, b, insp) = Some x" ..
    with Inr ab show ?thesis
      by (cases x) (auto simp: d Let_def split: prod.splits)
  qed
  then show ?case by blast
qed

lemma subfield_loop_Inr:
  assumes r: "\<And>insp F x. rec insp F = Some x \<Longrightarrow> columns_known insp F \<Longrightarrow>
      \<exists>insp' info. x = Inr (insp', info) \<and> keeps insp insp'"
  shows "subfield_loop rec chs (a, b, insp) = Some x \<Longrightarrow>
      \<forall>ch\<in>set chs. columns_known insp (GetId ch) \<Longrightarrow>
      \<exists>a' b' insp'. x = Inr (a', b', insp') \<and> keeps insp insp'"
proof (induction chs arbitrary: a b insp)
  case Nil
  then show ?case by (auto simp: keeps_refl)
next
  case (Cons ch chs)
  from Cons.prems(1) obtain y where y: "rec insp (GetId ch) = Some y"
    by (auto split: option.splits)
  from r [OF y] Cons.prems(2) obtain insp1 info1 where
    y': "y = Inr (insp1, info1)" and k1: "keeps insp insp1"
    by auto
  from Cons.prems(1) y y' have rest: "subfield_loop rec chs
      (a + fld_fOnDiskSize info1, b + fld_fInMemorySize info1, insp1) = Some x"
    by simp
  from Cons.prems(2) have "\<forall>c\<in>set chs. columns_known insp1 (GetId c)"
    by (simp add: keeps_known [OF k1])
  from Cons.IH [OF rest this] keeps_trans [OF k1] show ?case by blast
qed

lemma CollectFieldInfo_Inr:
  "CollectFieldInfo n insp F = Some x \<Longrightarrow> columns_known insp F \<Longrightarrow>
     \<exists>insp' info. x = Inr (insp', info) \<and> keeps insp insp'"
proof (induction n arbitrary: insp F x)
  case 0
  then show ?case by simp
next
  case (Suc n)
  let ?d = "fDescriptor insp"
  from Suc.prems(2) subtree_self [of F ?d]
  have "\<forall>col\<in>set (GetColumnIterable ?d F).
      \<exists>colInfo. GetColumnInfo insp (GetPhysicalId col) = Inr colInfo"
    by (auto simp: columns_known_def)
  from field_columns_loop_succeeds [OF this, of "(0, 0)"] obtain a b where
    cols: "field_columns_loop insp (GetColumnIterable ?d F) (0, 0) = Inr (a, b)"
    by blast
  with Suc.prems(1) obtain y where
    y: "subfield_loop (CollectFieldInfo n) (GetFieldIterable ?d F) (a, b, insp) = Some y"
    by (auto split: option.splits)
  have kids: "\<forall>ch\<in>set (GetFieldIterable ?d F). columns_known insp (GetId ch)"
    using columns_known_child [OF Suc.prems(2)] by blast
  have "\<exists>a' b' insp'. y = Inr (a', b', insp') \<and> keeps insp insp'"
  proof (rule subfield_loop_Inr [where rec = "CollectFieldInfo n", OF _ y kids])
    fix i :: RNTupleInspector and G z
    assume "CollectFieldInfo n i G = Some z" and "columns_known i G"
    then show "\<exists>insp' info. z = Inr (insp', info) \<and> keeps i insp'"
      by (rule Suc.IH)
  qed
  then obtain a' b' insp2 where y': "y = Inr (a', b', insp2)" and k: "keeps insp insp2"
    by blast
  from Suc.prems(1) cols y y' k show ?case
    by (auto simp: Let_def keeps_def)
qed

section \<open>Construction returns\<close>

lemma Create_mono:
  assumes "Create n pageSource = Some r" and "n \<le> m"
  shows "Create m pageSource = Some r"
proof (cases "CollectColumnInfo (RNTupleInspector_ctor pageSource)")
  case (Inl e)
  with assms(1) have "r = Inl e" by (simp add: Create_def)
  with Inl show ?thesis by (simp add: Create_def)
next
  case (Inr insp1)
  with assms(1) obtain x where
    x: "CollectFieldInfo n insp1 (GetFieldZeroId (fDescriptor insp1)) = Some x"
    by (auto simp: Create_def split: option.splits)
  from CollectFieldInfo_mono [OF x assms(2)] assms(1) Inr x show ?thesis
    by (simp add: Create_def)
qed

lemma Create_returns:
  assumes "finite (child_rel (GetSharedDescriptor pageSource))"
    and "acyclic (child_rel (GetSharedDescriptor pageSource))"
  shows "\<exists>n r. \<forall>m\<ge>n. Create m pageSource = Some r"
proof (cases "CollectColumnInfo (RNTupleInspector_ctor pageSource)")
  case (Inl e)
  then have "\<forall>m\<ge>0. Create m pageSource = Some (Inl e)" by (simp add: Create_def)
  then show ?thesis by blast
next
  case (Inr insp1)
  let ?d = "GetSharedDescriptor pageSource"
  have d1: "fDescriptor insp1 = ?d"
    using CollectColumnInfo_Inr(1) [OF Inr] by (simp add: RNTupleInspector_ctor_def)
  from assms have "wf ((child_rel ?d)\<inverse>)" by (rule finite_acyclic_wf_converse)
  from CollectFieldInfo_returns [OF this, of "GetFieldZeroId ?d"] d1 obtain n x where
    "CollectFieldInfo n insp1 (GetFieldZeroId ?d) = Some x"
    by blast
  then obtain r where "Create n pageSource = Some r"
    by (cases x) (auto simp: Create_def Inr d1)
  then have "\<forall>m\<ge>n. Create m pageSource = Some r"
    by (blast intro: Create_mono)
  then show ?thesis by blast
qed

lemma compression_uniform_settle:
  "compression_uniform d \<longleftrightarrow> settle (- 1) (visited_settings d) \<noteq> None"
proof (cases "dropWhile (\<lambda>v. v = - 1) (visited_settings d)")
  case Nil
  show ?thesis
    unfolding compression_uniform_def settle_sentinel Nil by simp
next
  case (Cons v ws)
  show ?thesis
    unfolding compression_uniform_def settle_sentinel Cons by (simp add: list_all_iff)
qed

lemma Create_succeeds:
  assumes "compression_uniform (GetSharedDescriptor pageSource)"
    and "columns_in_range (GetSharedDescriptor pageSource)"
    and "Create n pageSource = Some r"
  shows "\<exists>insp. r = Inr insp"
proof -
  let ?c = "RNTupleInspector_ctor pageSource"
  let ?d = "GetSharedDescriptor pageSource"
  have c: "fCompressionSettings ?c = - 1" "fDescriptor ?c = ?d" "fColumnInfo ?c = []"
    by (simp_all add: RNTupleInspector_ctor_def)
  from assms(1) obtain s where "settle (- 1) (visited_settings ?d) = Some s"
    by (auto simp: compression_uniform_settle)
  with CollectColumnInfo_settle [where insp = ?c] obtain insp1 where
    cols: "CollectColumnInfo ?c = Inr insp1"
    by (auto simp: c)
  note f1 = CollectColumnInfo_Inr [OF cols c(3), unfolded c]
  have look: "\<exists>colInfo. GetColumnInfo insp1 c = Inr colInfo"
    if "c < GetNPhysicalColumns ?d" for c
    using that by (simp add: GetColumnInfo_def map_at_def f1 map_of_keys)
  have known: "columns_known insp1 (GetFieldZeroId ?d)"
    unfolding columns_known_def f1
  proof (intro ballI)
    fix h col
    assume "h \<in> subtree ?d (GetFieldZeroId ?d)" and "col \<in> set (GetColumnIterable ?d h)"
    with assms(2) have "GetPhysicalId col < GetNPhysicalColumns ?d"
      by (simp add: columns_in_range_def)
    then show "\<exists>colInfo. GetColumnInfo insp1 (GetPhysicalId col) = Inr colInfo"
      by (rule look)
  qed
  from assms(3) cols obtain x where
    x: "CollectFieldInfo n insp1 (GetFieldZeroId ?d) = Some x"
    by (auto simp: Create_def f1 split: option.splits)
  from CollectFieldInfo_Inr [OF x known] obtain insp' info where "x = Inr (insp', info)"
    by blast
  with assms(3) cols x show ?thesis by (auto simp: Create_def f1)
qed

section \<open>Column lookup and the compression setting\<close>

lemma GetColumnInfo_Create:
  assumes "Create depth pageSource = Some (Inr insp)"
  shows "GetColumnInfo insp colId =
     (if GetNPhysicalColumns (fDescriptor insp) < colId
      then Inl (RException (''No column with physical ID '' @ to_string colId @ '' present''))
      else if colId < GetNPhysicalColumns (fDescriptor insp)
      then Inr (expected_column_info (fDescriptor insp) colId)
      else Inl std_out_of_range)"
  by (simp add: GetColumnInfo_def map_at_def Create_facts(2) [OF assms] map_of_keys)

text \<open>
  C3. For every physical column of a created inspector, the lookup of the column returns
  the stored record, whose on-disk size is the sum of the bytes on storage of all pages
  of the column in all clusters that contain it, and whose element count is the sum of
  the element counts of the column's ranges in these clusters. Sums are sums of 64-bit
  words; the on-disk size is the sum of the byte counts as numbers where that sum is
  below \<open>2 ^ 64\<close>, and so is the element count.
\<close>

theorem C3_column_sizes:
  assumes "Create depth pageSource = Some (Inr insp)"
    and "colId < GetNPhysicalColumns (fDescriptor insp)"
  shows "\<exists>colInfo. GetColumnInfo insp colId = Inr colInfo \<and>
     col_fOnDiskSize colInfo = sum_list (map fBytesOnStorage (column_pages (fDescriptor insp) colId)) \<and>
     col_fNElements colInfo = sum_list (map range_fNElements (column_ranges (fDescriptor insp) colId)) \<and>
     (sum_list (map (\<lambda>page. unat (fBytesOnStorage page)) (column_pages (fDescriptor insp) colId)) < 2 ^ 64 \<longrightarrow>
        unat (col_fOnDiskSize colInfo) =
          sum_list (map (\<lambda>page. unat (fBytesOnStorage page)) (column_pages (fDescriptor insp) colId))) \<and>
     (sum_list (map (\<lambda>r. unat (range_fNElements r)) (column_ranges (fDescriptor insp) colId)) < 2 ^ 64 \<longrightarrow>
        unat (col_fNElements colInfo) =
          sum_list (map (\<lambda>r. unat (range_fNElements r)) (column_ranges (fDescriptor insp) colId)))"
  using assms(2)
    unat_sum_list_exact [of "map fBytesOnStorage (column_pages (fDescriptor insp) colId)"]
    unat_sum_list_exact [of "map range_fNElements (column_ranges (fDescriptor insp) colId)"]
  by (simp add: GetColumnInfo_Create [OF assms(1)] expected_column_info_def comp_def)

theorem C3_column_sizes_witness:
  "\<exists>colInfo. GetColumnInfo example_inspector 0 = Inr colInfo \<and>
     col_fOnDiskSize colInfo = 24 + 16 \<and> col_fNElements colInfo = 10 \<and>
     unat (col_fOnDiskSize colInfo) = 24 + 16 \<and> unat (col_fNElements colInfo) = 10"
proof -
  have d: "fDescriptor example_inspector = example_descriptor"
    by (simp add: example_inspector_def)
  have n: "0 < GetNPhysicalColumns (fDescriptor example_inspector)"
    by (simp add: d example_descriptor_sel)
  show ?thesis
    using C3_column_sizes [OF example_Create n]
    by (simp add: d column_pages_def column_ranges_def column_clusters_def
        example_descriptor_sel example_cluster_sel)
qed

text \<open>
  C4. On a created inspector the lookup of a column fails for every identifier that is
  not below the number of physical columns: above that number with the exception of
  the bounds check, and at that number, which the check with \<open>>\<close> lets pass, with
  the \<^verbatim>\<open>std::out_of_range\<close> of the map, as the identifier is not a key. The
  lookup of the last identifier below the number returns the stored record of that
  column.
\<close>

theorem C4_column_lookup_bounds:
  assumes "Create depth pageSource = Some (Inr insp)"
  shows "(GetNPhysicalColumns (fDescriptor insp) \<le> colId \<longrightarrow> (\<exists>e. GetColumnInfo insp colId = Inl e)) \<and>
     (GetNPhysicalColumns (fDescriptor insp) < colId \<longrightarrow>
        GetColumnInfo insp colId =
          Inl (RException (''No column with physical ID '' @ to_string colId @ '' present''))) \<and>
     GetColumnInfo insp (GetNPhysicalColumns (fDescriptor insp)) = Inl std_out_of_range \<and>
     (0 < GetNPhysicalColumns (fDescriptor insp) \<longrightarrow>
        (\<exists>colInfo. GetColumnInfo insp (GetNPhysicalColumns (fDescriptor insp) - 1) = Inr colInfo \<and>
           map_of (fColumnInfo insp) (GetNPhysicalColumns (fDescriptor insp) - 1) = Some colInfo \<and>
           col_fDescriptor colInfo =
             GetColumnDescriptor (fDescriptor insp) (GetNPhysicalColumns (fDescriptor insp) - 1)))"
  by (auto simp: GetColumnInfo_Create [OF assms] Create_facts(2) [OF assms] map_of_keys
      expected_column_info_def)

theorem C4_column_lookup_bounds_witness:
  "GetColumnInfo example_inspector 7 = Inl (RException ''No column with physical ID 7 present'') \<and>
   GetColumnInfo example_inspector 3 = Inl std_out_of_range \<and>
   (\<exists>colInfo. GetColumnInfo example_inspector 2 = Inr colInfo \<and>
      col_fDescriptor colInfo = example_column 2)"
proof -
  have d: "GetNPhysicalColumns (fDescriptor example_inspector) = 3"
    "GetColumnDescriptor (fDescriptor example_inspector) = example_column"
    by (simp_all add: example_inspector_def example_descriptor_sel)
  have s: "to_string 7 = ''7''"
    by code_simp
  show ?thesis
    using C4_column_lookup_bounds [OF example_Create, of 7]
    by (auto simp: d s)
qed

text \<open>
  C5. Read the compression settings of the column ranges in the order of the column
  pass and drop the leading values \<open>-1\<close>. When nothing is left the pass succeeds and
  the setting of the inspector stays \<open>-1\<close>. Otherwise the first value left becomes the
  setting of the inspector, and the pass succeeds exactly when every later value equals
  it; on a later value that differs, the assertion fails and no inspector is created.
\<close>

theorem C5_compression_settings:
  "case dropWhile (\<lambda>v. v = - 1) (visited_settings (GetSharedDescriptor pageSource)) of
     [] \<Rightarrow>
       (\<exists>insp. CollectColumnInfo (RNTupleInspector_ctor pageSource) = Inr insp \<and>
          fCompressionSettings insp = - 1)
   | v # ws \<Rightarrow>
       if \<forall>w\<in>set ws. w = v
       then (\<exists>insp. CollectColumnInfo (RNTupleInspector_ctor pageSource) = Inr insp \<and>
          fCompressionSettings insp = v)
       else CollectColumnInfo (RNTupleInspector_ctor pageSource) = Inl R__ASSERT_Fatal \<and>
          Create depth pageSource = Some (Inl R__ASSERT_Fatal)"
proof -
  let ?c = "RNTupleInspector_ctor pageSource"
  have c: "fCompressionSettings ?c = - 1" "fDescriptor ?c = GetSharedDescriptor pageSource"
    by (simp_all add: RNTupleInspector_ctor_def)
  have fail: "Create depth pageSource = Some (Inl R__ASSERT_Fatal)"
    if "CollectColumnInfo ?c = Inl R__ASSERT_Fatal"
    using that by (simp add: Create_def)
  define rest where "rest = dropWhile (\<lambda>v. v = - 1) (visited_settings (GetSharedDescriptor pageSource))"
  have s: "settle (- 1) (visited_settings (GetSharedDescriptor pageSource)) =
      (case rest of [] \<Rightarrow> Some (- 1) | v # ws \<Rightarrow> if \<forall>w\<in>set ws. w = v then Some v else None)"
    by (simp add: settle_sentinel rest_def)
  note cs = CollectColumnInfo_settle [where insp = ?c, unfolded c s]
  have "case rest of
     [] \<Rightarrow> (\<exists>insp. CollectColumnInfo ?c = Inr insp \<and> fCompressionSettings insp = - 1)
   | v # ws \<Rightarrow>
       if \<forall>w\<in>set ws. w = v
       then (\<exists>insp. CollectColumnInfo ?c = Inr insp \<and> fCompressionSettings insp = v)
       else CollectColumnInfo ?c = Inl R__ASSERT_Fatal \<and>
          Create depth pageSource = Some (Inl R__ASSERT_Fatal)"
  proof (cases rest)
    case Nil
    with cs show ?thesis by simp
  next
    case (Cons v ws)
    show ?thesis
    proof (cases "\<forall>w\<in>set ws. w = v")
      case True
      with cs Cons show ?thesis by simp
    next
      case False
      with cs Cons fail show ?thesis by simp
    qed
  qed
  then show ?thesis by (simp only: rest_def)
qed

theorem C5_compression_settings_witness:
  "visited_settings (GetSharedDescriptor mismatch_source) = [5, 7, 7] \<and>
   Create 3 mismatch_source = Some (Inl R__ASSERT_Fatal)"
proof -
  have v: "visited_settings (GetSharedDescriptor mismatch_source) = [5, 7, 7]"
    by (simp add: visited_settings_def mismatch_source_def mismatch_cluster_def
        column_ranges_def column_clusters_def example_descriptor_sel example_cluster_sel upt_0_3)
  from C5_compression_settings [of mismatch_source 3] show ?thesis
    unfolding v by simp
qed

section \<open>The field aggregates\<close>

lemma created_field_sizes:
  assumes "Create depth pageSource = Some (Inr insp)"
    and "fieldId \<in> subtree (fDescriptor insp) (GetFieldZeroId (fDescriptor insp))"
  shows "\<exists>info. map_of (fFieldInfo insp) fieldId = Some info \<and>
     (\<forall>col\<in>set (GetColumnIterable (fDescriptor insp) fieldId).
        GetColumnInfo insp (GetPhysicalId col) = Inr (stored_column insp (GetPhysicalId col))) \<and>
     (\<forall>ch\<in>set (GetFieldIterable (fDescriptor insp) fieldId).
        map_of (fFieldInfo insp) (GetId ch) = Some (stored_field insp (GetId ch))) \<and>
     fld_fOnDiskSize info =
       sum_list (map (\<lambda>col. col_fOnDiskSize (stored_column insp (GetPhysicalId col)))
         (GetColumnIterable (fDescriptor insp) fieldId)) +
       sum_list (map (\<lambda>ch. fld_fOnDiskSize (stored_field insp (GetId ch)))
         (GetFieldIterable (fDescriptor insp) fieldId)) \<and>
     fld_fInMemorySize info =
       sum_list (map (\<lambda>col. GetInMemorySize (fDescriptor insp) (stored_column insp (GetPhysicalId col)))
         (GetColumnIterable (fDescriptor insp) fieldId)) +
       sum_list (map (\<lambda>ch. fld_fInMemorySize (stored_field insp (GetId ch)))
         (GetFieldIterable (fDescriptor insp) fieldId))"
proof -
  note f = Create_facts [OF assms(1)]
  from assms(2) f(5) obtain info where st: "map_of (fFieldInfo insp) fieldId = Some info"
    by auto
  with f(4) have e: "field_entry_ok insp fieldId info" by (simp add: fields_ok_def)
  then obtain a b where
    loop: "field_columns_loop insp (GetColumnIterable (fDescriptor insp) fieldId) (0, 0) = Inr (a, b)"
    and d: "fld_fOnDiskSize info = a + sum_list (map (\<lambda>ch. fld_fOnDiskSize (stored_field insp (GetId ch)))
           (GetFieldIterable (fDescriptor insp) fieldId))"
    and m: "fld_fInMemorySize info = b + sum_list (map (\<lambda>ch. fld_fInMemorySize (stored_field insp (GetId ch)))
           (GetFieldIterable (fDescriptor insp) fieldId))"
    by (auto simp: field_entry_ok_def)
  from e have kids: "\<forall>ch\<in>set (GetFieldIterable (fDescriptor insp) fieldId).
        map_of (fFieldInfo insp) (GetId ch) = Some (stored_field insp (GetId ch))"
    by (auto simp: field_entry_ok_def stored_field_def)
  from field_columns_loop_Inr [OF loop] st kids d m show ?thesis by simp
qed

lemma example_descriptor_of: "fDescriptor example_inspector = example_descriptor"
  by (simp add: example_inspector_def)

lemma example_subtree: "subtree example_descriptor 0 = {0, 1, 2, 3, 4}"
proof -
  have "subtree example_descriptor 0 = dom (map_of (fFieldInfo example_inspector))"
    using Create_facts(5) [OF example_Create]
    by (simp add: example_descriptor_of example_descriptor_sel)
  also have "\<dots> = {0, 1, 2, 3, 4}"
    by (auto simp: dom_map_of_conv_image_fst example_inspector_def example_fields_def)
  finally show ?thesis .
qed

lemma example_child_rel: "child_rel example_descriptor = {(0, 1), (0, 2), (2, 3), (2, 4)}"
  by (auto simp: child_rel_def example_descriptor_sel example_field_sel split: if_splits)

lemma example_finite: "finite (child_rel example_descriptor)"
  by (simp add: example_child_rel)

lemma example_acyclic: "acyclic (child_rel example_descriptor)"
proof -
  have "child_rel example_descriptor \<subseteq> less_than"
    by (simp add: example_child_rel)
  with wf_acyclic [OF wf_less_than] show ?thesis
    by (rule acyclic_subset)
qed

text \<open>
  C1. Over a finite field hierarchy without cycles the construction returns: from some
  depth bound on, every bound gives the same result, and no bound gives another. The
  result is an inspector when the source is well formed. In an inspector that is
  returned, every field of the hierarchy below the root field has a stored aggregate; all
  columns directly under the field and all its direct subfields are stored too, and the
  aggregate's on-disk size is the sum of the on-disk sizes of these columns plus the sum
  of the stored on-disk sizes of these subfields; likewise for the in-memory size. For a
  field without subfields the second sum is empty. Sums are sums of 64-bit words.
\<close>

theorem C1_field_tree_sizes:
  assumes "finite (child_rel (GetSharedDescriptor pageSource))"
    and "acyclic (child_rel (GetSharedDescriptor pageSource))"
  shows "\<exists>n res.
     (\<forall>depth\<ge>n. Create depth pageSource = Some res) \<and>
     (\<forall>depth res'. Create depth pageSource = Some res' \<longrightarrow> res' = res) \<and>
     (compression_uniform (GetSharedDescriptor pageSource) \<and>
      columns_in_range (GetSharedDescriptor pageSource) \<longrightarrow> (\<exists>insp. res = Inr insp)) \<and>
     (\<forall>insp. res = Inr insp \<longrightarrow>
        (\<forall>fieldId\<in>subtree (fDescriptor insp) (GetFieldZeroId (fDescriptor insp)).
           \<exists>info. map_of (fFieldInfo insp) fieldId = Some info \<and>
             (\<forall>col\<in>set (GetColumnIterable (fDescriptor insp) fieldId).
                GetColumnInfo insp (GetPhysicalId col) =
                  Inr (stored_column insp (GetPhysicalId col))) \<and>
             (\<forall>ch\<in>set (GetFieldIterable (fDescriptor insp) fieldId).
                map_of (fFieldInfo insp) (GetId ch) = Some (stored_field insp (GetId ch))) \<and>
             fld_fOnDiskSize info =
               sum_list (map (\<lambda>col. col_fOnDiskSize (stored_column insp (GetPhysicalId col)))
                 (GetColumnIterable (fDescriptor insp) fieldId)) +
               sum_list (map (\<lambda>ch. fld_fOnDiskSize (stored_field insp (GetId ch)))
                 (GetFieldIterable (fDescriptor insp) fieldId)) \<and>
             fld_fInMemorySize info =
               sum_list (map (\<lambda>col. GetInMemorySize (fDescriptor insp)
                                  (stored_column insp (GetPhysicalId col)))
                 (GetColumnIterable (fDescriptor insp) fieldId)) +
               sum_list (map (\<lambda>ch. fld_fInMemorySize (stored_field insp (GetId ch)))
                 (GetFieldIterable (fDescriptor insp) fieldId))))"
proof -
  from Create_returns [OF assms] obtain n res where
    ret: "\<forall>depth\<ge>n. Create depth pageSource = Some res"
    by blast
  then have at_n: "Create n pageSource = Some res" by simp
  have same: "res' = res" if "Create depth pageSource = Some res'" for depth res'
  proof -
    from Create_mono [OF that, of "max depth n"]
    have "Create (max depth n) pageSource = Some res'" by simp
    moreover from ret have "Create (max depth n) pageSource = Some res" by simp
    ultimately show ?thesis by simp
  qed
  have ok: "\<exists>insp. res = Inr insp"
    if "compression_uniform (GetSharedDescriptor pageSource)"
      and "columns_in_range (GetSharedDescriptor pageSource)"
    using that at_n by (rule Create_succeeds)
  from ret same ok created_field_sizes [of n pageSource] at_n show ?thesis
    by blast
qed

theorem C1_field_tree_sizes_witness:
  "\<exists>n. (\<forall>depth\<ge>n. Create depth example_source = Some (Inr example_inspector)) \<and>
     (\<exists>info. map_of (fFieldInfo example_inspector) 2 = Some info \<and>
        fld_fOnDiskSize info = 0 + (10 + 40) \<and> fld_fInMemorySize info = 0 + (2 * 5 + 8 * 5))"
proof -
  have f: "finite (child_rel (GetSharedDescriptor example_source))"
    and a: "acyclic (child_rel (GetSharedDescriptor example_source))"
    by (simp_all add: example_source_def example_finite example_acyclic)
  from C1_field_tree_sizes [OF f a] obtain n res where
    ret: "\<forall>depth\<ge>n. Create depth example_source = Some res"
    and same: "\<forall>depth res'. Create depth example_source = Some res' \<longrightarrow> res' = res"
    and sizes: "\<forall>insp. res = Inr insp \<longrightarrow>
        (\<forall>fieldId\<in>subtree (fDescriptor insp) (GetFieldZeroId (fDescriptor insp)).
           \<exists>info. map_of (fFieldInfo insp) fieldId = Some info \<and>
             (\<forall>col\<in>set (GetColumnIterable (fDescriptor insp) fieldId).
                GetColumnInfo insp (GetPhysicalId col) =
                  Inr (stored_column insp (GetPhysicalId col))) \<and>
             (\<forall>ch\<in>set (GetFieldIterable (fDescriptor insp) fieldId).
                map_of (fFieldInfo insp) (GetId ch) = Some (stored_field insp (GetId ch))) \<and>
             fld_fOnDiskSize info =
               sum_list (map (\<lambda>col. col_fOnDiskSize (stored_column insp (GetPhysicalId col)))
                 (GetColumnIterable (fDescriptor insp) fieldId)) +
               sum_list (map (\<lambda>ch. fld_fOnDiskSize (stored_field insp (GetId ch)))
                 (GetFieldIterable (fDescriptor insp) fieldId)) \<and>
             fld_fInMemorySize info =
               sum_list (map (\<lambda>col. GetInMemorySize (fDescriptor insp)
                                  (stored_column insp (GetPhysicalId col)))
                 (GetColumnIterable (fDescriptor insp) fieldId)) +
               sum_list (map (\<lambda>ch. fld_fInMemorySize (stored_field insp (GetId ch)))
                 (GetFieldIterable (fDescriptor insp) fieldId)))"
    by blast
  from same example_Create have res: "res = Inr example_inspector" by blast
  have m: "2 \<in> subtree (fDescriptor example_inspector) (GetFieldZeroId (fDescriptor example_inspector))"
    by (simp add: example_descriptor_of example_descriptor_sel example_subtree)
  from sizes res m have "\<exists>info. map_of (fFieldInfo example_inspector) 2 = Some info \<and>
        fld_fOnDiskSize info = 0 + (10 + 40) \<and> fld_fInMemorySize info = 0 + (2 * 5 + 8 * 5)"
    by (auto simp: example_descriptor_of example_descriptor_sel example_field_sel
        stored_field_def example_inspector_def example_fields_def)
  with ret res show ?thesis by blast
qed

lemma type_count_loop_eq:
  "type_count_loop insp typeName b m n =
     n + int (length (filter (\<lambda>(fldId, fldInfo).
        (b \<or> GetParentId (fld_fDescriptor fldInfo) = GetFieldZeroId (fDescriptor insp)) \<and>
        typeName = GetTypeName (fld_fDescriptor fldInfo)) m))"
  by (induction insp typeName b m n rule: type_count_loop.induct) auto

lemma count_distinct_keys:
  assumes "distinct (map fst m)"
    and "\<And>k v. map_of m k = Some v \<Longrightarrow> P (k, v) = Q k"
  shows "length (filter P m) = card {k \<in> dom (map_of m). Q k}"
proof -
  have d: "distinct (map fst (filter P m))"
    using assms(1) by (rule distinct_map_filter)
  have "set (map fst (filter P m)) = {k \<in> dom (map_of m). Q k}"
  proof (intro set_eqI iffI)
    fix k assume "k \<in> set (map fst (filter P m))"
    then obtain v where kv: "(k, v) \<in> set m" "P (k, v)" by auto
    from assms(1) kv(1) have "map_of m k = Some v" by simp
    with assms(2) kv(2) show "k \<in> {k \<in> dom (map_of m). Q k}" by auto
  next
    fix k assume "k \<in> {k \<in> dom (map_of m). Q k}"
    then obtain v where v: "map_of m k = Some v" and q: "Q k" by auto
    from v have "(k, v) \<in> set m" by (rule map_of_SomeD)
    moreover from assms(2) [OF v] q have "P (k, v)" by simp
    ultimately show "k \<in> set (map fst (filter P m))" by force
  qed
  with distinct_card [OF d] show ?thesis by simp
qed

text \<open>
  C8. On a created inspector, the number of fields of a type counts, without subfields,
  the fields of the hierarchy whose parent is the root field and whose type name is the
  given one, and with subfields all fields of the hierarchy with that type name.
\<close>

theorem C8_field_type_count:
  assumes "Create depth pageSource = Some (Inr insp)"
  shows "GetFieldTypeCount insp typeName False =
       int (card {F \<in> subtree (fDescriptor insp) (GetFieldZeroId (fDescriptor insp)).
          GetParentId (GetFieldDescriptor (fDescriptor insp) F) = GetFieldZeroId (fDescriptor insp) \<and>
          GetTypeName (GetFieldDescriptor (fDescriptor insp) F) = typeName}) \<and>
     GetFieldTypeCount insp typeName True =
       int (card {F \<in> subtree (fDescriptor insp) (GetFieldZeroId (fDescriptor insp)).
          GetTypeName (GetFieldDescriptor (fDescriptor insp) F) = typeName})"
proof -
  note f = Create_facts [OF assms]
  from f(4) have dist: "distinct (map fst (fFieldInfo insp))"
    and desc: "\<And>F info. map_of (fFieldInfo insp) F = Some info \<Longrightarrow>
        fld_fDescriptor info = GetFieldDescriptor (fDescriptor insp) F"
    by (auto simp: fields_ok_def field_entry_ok_def)
  have "length (filter (\<lambda>(fldId, fldInfo).
        (b \<or> GetParentId (fld_fDescriptor fldInfo) = GetFieldZeroId (fDescriptor insp)) \<and>
        typeName = GetTypeName (fld_fDescriptor fldInfo)) (fFieldInfo insp)) =
      card {F \<in> dom (map_of (fFieldInfo insp)).
        (b \<or> GetParentId (GetFieldDescriptor (fDescriptor insp) F) = GetFieldZeroId (fDescriptor insp)) \<and>
        GetTypeName (GetFieldDescriptor (fDescriptor insp) F) = typeName}" for b
    by (rule count_distinct_keys [OF dist]) (auto simp: desc)
  from this [of True] this [of False] show ?thesis
    by (simp add: GetFieldTypeCount_def type_count_loop_eq f(5))
qed

theorem C8_field_type_count_witness:
  "GetFieldTypeCount example_inspector ''int'' False = 1 \<and>
   GetFieldTypeCount example_inspector ''int'' True = 2 \<and>
   card {F \<in> subtree example_descriptor 0.
     GetParentId (example_field F) = 0 \<and> GetTypeName (example_field F) = ''int''} = 1 \<and>
   card {F \<in> subtree example_descriptor 0. GetTypeName (example_field F) = ''int''} = 2"
proof -
  have e: "GetFieldTypeCount example_inspector ''int'' False = 1"
    "GetFieldTypeCount example_inspector ''int'' True = 2"
    by (simp_all add: GetFieldTypeCount_def example_inspector_def example_fields_def
        example_descriptor_sel example_field_def)
  from C8_field_type_count [OF example_Create, of "''int''"] show ?thesis
    by (simp add: e example_descriptor_of example_descriptor_sel)
qed

section \<open>The enumeration of the columns below a field\<close>

lemma tree_columns_loop_eq:
  "tree_columns_loop cols colIds =
     colIds @ map GetPhysicalId (filter (\<lambda>col. \<not> IsAliasColumn col) cols)"
  by (induction cols arbitrary: colIds) simp_all

lemma tree_fields_loop_eq: "tree_fields_loop flds fieldIdQueue = fieldIdQueue @ map GetId flds"
  by (induction flds arbitrary: fieldIdQueue) simp_all

lemma queue_loop_step:
  "queue_loop (Suc n) d (currId # fieldIdQueue) colIds =
     queue_loop n d (fieldIdQueue @ child_ids d currId) (colIds @ nonalias_ids d currId)"
  by (simp add: tree_columns_loop_eq tree_fields_loop_eq child_ids_def nonalias_ids_def)

lemma child_rel_iff: "(g, c) \<in> child_rel d \<longleftrightarrow> c \<in> set (child_ids d g)"
  by (simp add: child_rel_def child_ids_def)

lemma queue_loop_mono:
  "queue_loop n d q colIds = Some r \<Longrightarrow> n \<le> m \<Longrightarrow> queue_loop m d q colIds = Some r"
proof (induction n d q colIds arbitrary: m rule: queue_loop.induct)
  case (1 n d colIds)
  then show ?case by simp
next
  case (2 d currId fieldIdQueue colIds)
  then show ?case by simp
next
  case (3 n d currId fieldIdQueue colIds)
  from "3.prems"(2) obtain m' where m: "m = Suc m'" and le: "n \<le> m'"
    by (cases m) auto
  from "3.prems"(1) have "queue_loop n d
       (tree_fields_loop (GetFieldIterable d currId) fieldIdQueue)
       (tree_columns_loop (GetColumnIterable d currId) colIds) = Some r"
    by simp
  from "3.IH" [OF this le] show ?case by (simp add: m)
qed

lemma queue_loop_terminates:
  assumes "wf ((child_rel d)\<inverse>)"
  shows "\<exists>n r. queue_loop n d q colIds = Some r"
proof -
  have "\<forall>q colIds. mset q = M \<longrightarrow> (\<exists>n r. queue_loop n d q colIds = Some r)" for M
  proof (induction M rule: wf_induct_rule [OF wf_mult [OF assms]])
    case (1 M)
    show ?case
    proof (intro allI impI)
      fix q colIds
      assume M: "mset q = M"
      show "\<exists>n r. queue_loop n d q colIds = Some r"
      proof (cases q)
        case Nil
        then have "queue_loop 0 d q colIds = Some colIds" by simp
        then show ?thesis by blast
      next
        case (Cons currId rest)
        let ?q = "rest @ child_ids d currId"
        have "(mset rest + mset (child_ids d currId), mset rest + {#currId#}) \<in> mult ((child_rel d)\<inverse>)"
          by (rule one_step_implies_mult) (simp_all add: child_rel_iff)
        then have "(mset ?q, M) \<in> mult ((child_rel d)\<inverse>)"
          using M Cons by simp
        from "1.IH" [OF this] obtain n r where
          "queue_loop n d ?q (colIds @ nonalias_ids d currId) = Some r"
          by blast
        then have "queue_loop (Suc n) d q colIds = Some r"
          by (simp only: Cons queue_loop_step)
        then show ?thesis by blast
      qed
    qed
  qed
  then show ?thesis by blast
qed

text \<open>
  C10. Over a finite and acyclic field hierarchy the enumeration of the columns below a
  field returns, for every field: some number of iterations of the loop over the queue
  empties the queue, and the result is the same for every larger bound.
\<close>

theorem C10_enumeration_terminates:
  assumes "finite (child_rel (fDescriptor insp))" and "acyclic (child_rel (fDescriptor insp))"
  shows "\<exists>n colIds. \<forall>m\<ge>n. GetColumnsForFieldTree m insp fieldId = Some colIds"
proof -
  from assms have "wf ((child_rel (fDescriptor insp))\<inverse>)"
    by (rule finite_acyclic_wf_converse)
  from queue_loop_terminates [OF this] obtain n r where
    "queue_loop n (fDescriptor insp) [fieldId] [] = Some r"
    by blast
  then have "\<forall>m\<ge>n. GetColumnsForFieldTree m insp fieldId = Some r"
    by (auto simp: GetColumnsForFieldTree_def intro: queue_loop_mono)
  then show ?thesis by blast
qed

lemma example_GetColumnsForFieldTree:
  "GetColumnsForFieldTree 5 example_inspector 0 = Some [0, 1, 2]"
  by (simp add: GetColumnsForFieldTree_def eval_nat_numeral example_descriptor_of
      example_descriptor_sel example_field_sel example_column_sel)

theorem C10_enumeration_terminates_witness:
  "\<exists>n colIds. \<forall>m\<ge>n. GetColumnsForFieldTree m example_inspector 0 = Some colIds"
proof -
  have f: "finite (child_rel (fDescriptor example_inspector))"
    and a: "acyclic (child_rel (fDescriptor example_inspector))"
    by (simp_all add: example_descriptor_of example_finite example_acyclic)
  show ?thesis by (rule C10_enumeration_terminates [OF f a])
qed

section \<open>The in-memory size of a column\<close>

lemma sum_list_word_mult:
  "sum_list (map (\<lambda>x. f x * c) xs) = c * sum_list (map f xs)" for c :: u64
  by (induction xs) (simp_all add: algebra_simps)

lemma ranges_pages:
  "\<forall>cl\<in>set cls. range_fNElements (GetColumnRange cl c) =
       sum_list (map page_fNElements (GetPageRange cl c)) \<Longrightarrow>
     sum_list (map (\<lambda>cl. range_fNElements (GetColumnRange cl c)) cls) =
     sum_list (map page_fNElements (concat (map (\<lambda>cl. GetPageRange cl c) cls)))"
  by (induction cls) simp_all

text \<open>
  C7. For every physical column of a created inspector whose descriptor carries the
  column's own physical id, the lookup returns the stored record; the record holds the
  default in-memory element size of the column's type, and its in-memory size is the sum
  over all pages of the column of the element count of the page times that element
  size. The record is built from the element size and the element count of the cluster
  column ranges (line 77): their product is the same number whenever, in every cluster
  that contains the column, the element count of the column range is the sum of the
  element counts of the pages. Sums and products are those of 64-bit words.
\<close>

theorem C7_column_in_memory_size:
  assumes "Create depth pageSource = Some (Inr insp)"
    and "colId < GetNPhysicalColumns (fDescriptor insp)"
    and "GetPhysicalId (GetColumnDescriptor (fDescriptor insp) colId) = colId"
  shows "\<exists>colInfo. GetColumnInfo insp colId = Inr colInfo \<and>
     col_fElementSize colInfo =
       ElementSize (fDescriptor insp) (GetType (GetColumnDescriptor (fDescriptor insp) colId)) \<and>
     GetInMemorySize (fDescriptor insp) colInfo =
       sum_list (map (\<lambda>page. page_fNElements page * ucast (col_fElementSize colInfo))
         (column_pages (fDescriptor insp) colId)) \<and>
     ((\<forall>cl\<in>set (column_clusters (fDescriptor insp) colId).
         range_fNElements (GetColumnRange cl colId) =
           sum_list (map page_fNElements (GetPageRange cl colId))) \<longrightarrow>
      GetInMemorySize (fDescriptor insp) colInfo =
        ucast (col_fElementSize colInfo) * col_fNElements colInfo)"
proof -
  let ?d = "fDescriptor insp"
  let ?ci = "expected_column_info ?d colId"
  have g: "GetColumnInfo insp colId = Inr ?ci"
    using assms(2) by (simp add: GetColumnInfo_Create [OF assms(1)])
  have e: "col_fElementSize ?ci = ElementSize ?d (GetType (GetColumnDescriptor ?d colId))"
    by (simp add: expected_column_info_def)
  have m: "GetInMemorySize ?d ?ci =
      sum_list (map (\<lambda>page. page_fNElements page * ucast (col_fElementSize ?ci))
        (column_pages ?d colId))"
    by (simp add: GetInMemorySize_def expected_column_info_def assms(3))
  have p: "GetInMemorySize ?d ?ci = ucast (col_fElementSize ?ci) * col_fNElements ?ci"
    if "\<forall>cl\<in>set (column_clusters ?d colId).
         range_fNElements (GetColumnRange cl colId) =
           sum_list (map page_fNElements (GetPageRange cl colId))"
  proof -
    have "col_fNElements ?ci = sum_list (map page_fNElements (column_pages ?d colId))"
      using ranges_pages [OF that]
      by (simp add: expected_column_info_def column_ranges_def column_pages_def comp_def)
    then show ?thesis by (simp add: m sum_list_word_mult)
  qed
  from g e m p show ?thesis by blast
qed

theorem C7_column_in_memory_size_witness:
  "\<exists>colInfo. GetColumnInfo example_inspector 0 = Inr colInfo \<and>
     col_fElementSize colInfo = 4 \<and>
     GetInMemorySize example_descriptor colInfo = 6 * 4 + 4 * 4 \<and>
     GetInMemorySize example_descriptor colInfo = 4 * col_fNElements colInfo"
proof -
  have n: "0 < GetNPhysicalColumns (fDescriptor example_inspector)"
    and i: "GetPhysicalId (GetColumnDescriptor (fDescriptor example_inspector) 0) = 0"
    by (simp_all add: example_descriptor_of example_descriptor_sel example_column_sel)
  from C7_column_in_memory_size [OF example_Create n i] show ?thesis
    by (auto simp: example_descriptor_of column_pages_def column_clusters_def
        example_descriptor_sel example_cluster_sel example_column_sel)
qed

section \<open>Hierarchies that are trees\<close>

lemma finite_subtree:
  assumes "finite (child_rel d)"
  shows "finite (subtree d g)"
proof -
  have "subtree d g \<subseteq> insert g (Range (child_rel d))"
    by (auto simp: subtree_def elim: rtranclE)
  with assms show ?thesis
    by (meson finite_Range finite_insert finite_subset)
qed

lemma subtree_unfold: "subtree d g = insert g (\<Union>c\<in>set (child_ids d g). subtree d c)"
proof (intro set_eqI iffI)
  fix h assume "h \<in> subtree d g"
  then have "(g, h) \<in> (child_rel d)\<^sup>*" by (simp add: subtree_def)
  then show "h \<in> insert g (\<Union>c\<in>set (child_ids d g). subtree d c)"
    by (cases rule: converse_rtranclE) (auto simp: subtree_def child_rel_iff)
next
  fix h assume "h \<in> insert g (\<Union>c\<in>set (child_ids d g). subtree d c)"
  then show "h \<in> subtree d g"
    by (auto simp: subtree_def child_rel_iff intro: converse_rtrancl_into_rtrancl)
qed

lemma subtree_no_parent:
  assumes "acyclic (child_rel d)" and "c \<in> set (child_ids d g)"
  shows "g \<notin> subtree d c"
proof
  assume "g \<in> subtree d c"
  then have "(c, g) \<in> (child_rel d)\<^sup>*" by (simp add: subtree_def)
  moreover from assms(2) have "(g, c) \<in> child_rel d" by (simp add: child_rel_iff)
  ultimately have "(g, g) \<in> (child_rel d)\<^sup>+" by (rule rtrancl_into_trancl2 [rotated])
  with assms(1) show False by (simp add: acyclic_def)
qed

lemma sibling_not_below:
  assumes "acyclic (child_rel d)" and "single_valued ((child_rel d)\<inverse>)"
    and "(g, c) \<in> child_rel d" and "(g, c') \<in> child_rel d" and "c \<noteq> c'"
  shows "(c', c) \<notin> (child_rel d)\<^sup>*"
proof
  assume "(c', c) \<in> (child_rel d)\<^sup>*"
  with assms(5) obtain p where p: "(c', p) \<in> (child_rel d)\<^sup>*" "(p, c) \<in> child_rel d"
    by (auto elim: rtranclE)
  from assms(2) p(2) assms(3) have "p = g"
    by (auto simp: single_valued_def)
  with p(1) assms(4) have "(g, g) \<in> (child_rel d)\<^sup>+"
    by (auto intro: rtrancl_into_trancl2)
  with assms(1) show False by (simp add: acyclic_def)
qed

lemma subtree_disjoint:
  assumes "acyclic (child_rel d)" and "single_valued ((child_rel d)\<inverse>)"
    and "c \<in> set (child_ids d g)" and "c' \<in> set (child_ids d g)" and "c \<noteq> c'"
  shows "subtree d c \<inter> subtree d c' = {}"
proof (rule ccontr)
  assume "subtree d c \<inter> subtree d c' \<noteq> {}"
  then obtain h where "(c, h) \<in> (child_rel d)\<^sup>*" "(c', h) \<in> (child_rel d)\<^sup>*"
    by (auto simp: subtree_def)
  then have "(h, c) \<in> ((child_rel d)\<inverse>)\<^sup>*" "(h, c') \<in> ((child_rel d)\<inverse>)\<^sup>*"
    by (simp_all add: rtrancl_converse)
  from single_valued_confluent [OF assms(2) this]
  have "(c', c) \<in> (child_rel d)\<^sup>* \<or> (c, c') \<in> (child_rel d)\<^sup>*"
    by (simp add: rtrancl_converse)
  moreover from assms(3,4) have e: "(g, c) \<in> child_rel d" "(g, c') \<in> child_rel d"
    by (simp_all add: child_rel_iff)
  ultimately show False
    using sibling_not_below [OF assms(1,2) e assms(5)]
      sibling_not_below [OF assms(1,2) e(2) e(1)] assms(5)
    by auto
qed

lemma sum_subtree:
  fixes \<phi> :: "DescriptorId_t \<Rightarrow> 'a::comm_monoid_add"
  assumes "tree_hierarchy d"
  shows "sum \<phi> (subtree d g) = \<phi> g + sum_list (map (\<lambda>c. sum \<phi> (subtree d c)) (child_ids d g))"
proof -
  from assms have fin: "finite (child_rel d)" and acy: "acyclic (child_rel d)"
    and sv: "single_valued ((child_rel d)\<inverse>)" and dist: "distinct (child_ids d g)"
    by (simp_all add: tree_hierarchy_def)
  let ?U = "\<Union>c\<in>set (child_ids d g). subtree d c"
  have finU: "finite ?U" by (simp add: finite_subtree [OF fin])
  have notin: "g \<notin> ?U" using subtree_no_parent [OF acy] by blast
  have "sum \<phi> (subtree d g) = sum \<phi> (insert g ?U)"
    by (subst subtree_unfold) simp
  also have "\<dots> = \<phi> g + sum \<phi> ?U"
    using finU notin by (rule sum.insert)
  also have "sum \<phi> ?U = sum (\<lambda>c. sum \<phi> (subtree d c)) (set (child_ids d g))"
  proof (rule sum.UNION_disjoint)
    show "finite (set (child_ids d g))" by simp
    show "\<forall>c\<in>set (child_ids d g). finite (subtree d c)"
      by (simp add: finite_subtree [OF fin])
    show "\<forall>c\<in>set (child_ids d g). \<forall>c'\<in>set (child_ids d g).
        c \<noteq> c' \<longrightarrow> subtree d c \<inter> subtree d c' = {}"
      using subtree_disjoint [OF acy sv] by blast
  qed
  also have "\<dots> = sum_list (map (\<lambda>c. sum \<phi> (subtree d c)) (child_ids d g))"
    using dist by (simp add: sum_list_distinct_conv_sum_set)
  finally show ?thesis .
qed

lemma queue_loop_mset:
  assumes "tree_hierarchy d"
  shows "queue_loop n d q colIds = Some r \<Longrightarrow>
     mset r = mset colIds +
       sum_list (map (\<lambda>g. \<Sum>h\<in>subtree d g. mset (nonalias_ids d h)) q)"
proof (induction n arbitrary: q colIds)
  case 0
  then show ?case by (cases q) simp_all
next
  case (Suc n)
  show ?case
  proof (cases q)
    case Nil
    with Suc.prems show ?thesis by simp
  next
    case (Cons currId rest)
    with Suc.prems have "queue_loop n d (rest @ child_ids d currId)
        (colIds @ nonalias_ids d currId) = Some r"
      by (simp only: queue_loop_step)
    from Suc.IH [OF this] show ?thesis
      by (simp add: Cons sum_subtree [OF assms, of _ currId])
  qed
qed

lemma queue_loop_set:
  "queue_loop n d q colIds = Some r \<Longrightarrow>
     set r = set colIds \<union> (\<Union>g\<in>set q. \<Union>h\<in>subtree d g. set (nonalias_ids d h))"
proof (induction n arbitrary: q colIds)
  case 0
  then show ?case by (cases q) simp_all
next
  case (Suc n)
  show ?case
  proof (cases q)
    case Nil
    with Suc.prems show ?thesis by simp
  next
    case (Cons currId rest)
    with Suc.prems have "queue_loop n d (rest @ child_ids d currId)
        (colIds @ nonalias_ids d currId) = Some r"
      by (simp only: queue_loop_step)
    from Suc.IH [OF this]
    have "set r = set colIds \<union> set (nonalias_ids d currId) \<union>
        ((\<Union>g\<in>set rest. \<Union>h\<in>subtree d g. set (nonalias_ids d h)) \<union>
         (\<Union>g\<in>set (child_ids d currId). \<Union>h\<in>subtree d g. set (nonalias_ids d h)))"
      by (simp add: Un_assoc UN_Un)
    moreover have "(\<Union>h\<in>subtree d currId. set (nonalias_ids d h)) =
        set (nonalias_ids d currId) \<union>
        (\<Union>g\<in>set (child_ids d currId). \<Union>h\<in>subtree d g. set (nonalias_ids d h))"
      by (subst subtree_unfold) auto
    ultimately show ?thesis
      unfolding Cons by (simp add: Un_ac)
  qed
qed

lemma count_owned_once:
  assumes "owned_once ids" and "finite S"
  shows "count (\<Sum>h\<in>S. mset (ids h)) x = (if \<exists>h\<in>S. x \<in> set (ids h) then 1 else 0)"
proof -
  from assms(1) have dist: "\<And>g. distinct (ids g)"
    and one: "\<And>g h. x \<in> set (ids g) \<Longrightarrow> x \<in> set (ids h) \<Longrightarrow> g = h"
    by (auto simp: owned_once_def)
  have c: "count (\<Sum>h\<in>S. mset (ids h)) x = (\<Sum>h\<in>S. count (mset (ids h)) x)"
    by (rule count_sum)
  show ?thesis
  proof (cases "\<exists>h\<in>S. x \<in> set (ids h)")
    case False
    then have "(\<Sum>h\<in>S. count (mset (ids h)) x) = 0"
      by (intro sum.neutral) (simp add: count_eq_zero_iff)
    with False c show ?thesis by simp
  next
    case True
    then obtain h0 where h0: "h0 \<in> S" "x \<in> set (ids h0)" by blast
    have "(\<Sum>h\<in>S - {h0}. count (mset (ids h)) x) = 0"
    proof (intro sum.neutral ballI)
      fix h assume "h \<in> S - {h0}"
      with one [OF h0(2)] have "x \<notin> set (ids h)" by auto
      then show "count (mset (ids h)) x = 0" by (simp add: count_eq_zero_iff)
    qed
    moreover have "count (mset (ids h0)) x = 1"
      using dist [of h0] h0(2) by (simp add: distinct_count_atmost_1)
    ultimately have "(\<Sum>h\<in>S. count (mset (ids h)) x) = 1"
      using sum.remove [OF assms(2) h0(1), of "\<lambda>h. count (mset (ids h)) x"] by simp
    with True c show ?thesis by simp
  qed
qed

section \<open>The example with a projected field\<close>

lemma alias_descriptor_sel:
  "GetNPhysicalColumns alias_descriptor = 3"
  "GetColumnDescriptor alias_descriptor = example_column"
  "GetClusterIterable alias_descriptor = [example_cluster]"
  "GetColumnIterable alias_descriptor f =
     (if f = 5 then [\<lparr>GetType = 0, GetPhysicalId = 0, IsAliasColumn = True\<rparr>]
      else GetColumnIterable example_descriptor f)"
  "GetFieldIterable alias_descriptor f =
     (if f = 0 then [example_field 1, example_field 2, alias_field]
      else GetFieldIterable example_descriptor f)"
  "GetFieldDescriptor alias_descriptor f = (if f = 5 then alias_field else example_field f)"
  "GetFieldZeroId alias_descriptor = 0"
  "ElementSize alias_descriptor = ElementSize example_descriptor"
  by (simp_all add: alias_descriptor_def example_descriptor_sel)

lemma alias_CollectColumnInfo:
  "CollectColumnInfo (RNTupleInspector_ctor alias_source) =
     Inr (alias_inspector\<lparr>fFieldInfo := []\<rparr>)"
  by (simp add: CollectColumnInfo_def RNTupleInspector_ctor_def alias_source_def
      alias_descriptor_sel example_descriptor_sel example_cluster_sel alias_inspector_def
      example_columns_def check_compression_def emplace_def Let_def upt_0_3 example_column_sel)

lemma alias_CollectFieldInfo:
  "CollectFieldInfo (Suc (Suc (Suc 0))) (alias_inspector\<lparr>fFieldInfo := []\<rparr>) 0 =
     Some (Inr (alias_inspector, stored_field alias_inspector 0))"
  by (simp add: alias_inspector_def alias_descriptor_sel example_descriptor_sel example_columns_def
      example_column_sel example_field_sel alias_field_def stored_field_def
      GetColumnInfo_def map_at_def GetInMemorySize_def column_pages_def column_clusters_def
      example_cluster_sel emplace_def Let_def)

lemma alias_Create: "Create (Suc (Suc (Suc 0))) alias_source = Some (Inr alias_inspector)"
proof -
  have z: "GetFieldZeroId (fDescriptor (alias_inspector\<lparr>fFieldInfo := []\<rparr>)) = 0"
    by (simp add: alias_inspector_def alias_descriptor_sel)
  show ?thesis
    unfolding Create_def Let_def alias_CollectColumnInfo
    by (simp only: sum.case z alias_CollectFieldInfo option.case prod.case)
qed

lemma alias_descriptor_of: "fDescriptor alias_inspector = alias_descriptor"
  by (simp add: alias_inspector_def)

lemma alias_subtree: "subtree alias_descriptor 0 = {0, 1, 2, 3, 4, 5}"
proof -
  have "subtree alias_descriptor 0 = dom (map_of (fFieldInfo alias_inspector))"
    using Create_facts(5) [OF alias_Create]
    by (simp add: alias_descriptor_of alias_descriptor_sel)
  also have "\<dots> = {0, 1, 2, 3, 4, 5}"
    by (auto simp: dom_map_of_conv_image_fst alias_inspector_def)
  finally show ?thesis .
qed

lemma alias_child_rel: "child_rel alias_descriptor = {(0, 1), (0, 2), (0, 5), (2, 3), (2, 4)}"
  by (auto simp: child_rel_def alias_descriptor_sel example_descriptor_sel example_field_sel
      alias_field_def split: if_splits)

lemma alias_tree: "tree_hierarchy alias_descriptor"
  unfolding tree_hierarchy_def
proof (intro conjI allI)
  show "finite (child_rel alias_descriptor)" by (simp add: alias_child_rel)
  have "child_rel alias_descriptor \<subseteq> less_than"
    by (simp add: alias_child_rel)
  with wf_acyclic [OF wf_less_than] show "acyclic (child_rel alias_descriptor)"
    by (rule acyclic_subset)
  show "single_valued ((child_rel alias_descriptor)\<inverse>)"
    by (auto simp: single_valued_def alias_child_rel)
  show "distinct (child_ids alias_descriptor g)" for g
    by (simp add: child_ids_def alias_descriptor_sel example_descriptor_sel example_field_sel
        alias_field_def)
qed

lemma alias_nonalias_ids:
  "nonalias_ids alias_descriptor h =
     (if h = 1 then [0] else if h = 3 then [1] else if h = 4 then [2] else [])"
  by (simp add: nonalias_ids_def alias_descriptor_sel example_descriptor_sel example_column_sel)

lemma alias_owned_once: "owned_once (nonalias_ids alias_descriptor)"
  by (auto simp: owned_once_def alias_nonalias_ids split: if_splits)

text \<open>
  C6. Over a field hierarchy that is a finite tree (acyclic, every field with one
  parent at most and listed once among its parent's subfields) in which no physical
  column id is listed twice among the non-alias columns of the fields, the enumeration
  below a field returns: it yields every physical id of a non-alias column of a field
  below the start field, and only those, each once. Started at the root field, where
  the non-alias columns of the fields below the root are the physical columns of the
  source, the result is a permutation of all physical column ids.
\<close>

theorem C6_columns_for_field_tree:
  assumes "tree_hierarchy (fDescriptor insp)"
    and "owned_once (nonalias_ids (fDescriptor insp))"
  shows "\<exists>n colIds.
     (\<forall>m\<ge>n. GetColumnsForFieldTree m insp fieldId = Some colIds) \<and>
     distinct colIds \<and>
     set colIds =
       {GetPhysicalId col | h col. h \<in> subtree (fDescriptor insp) fieldId \<and>
          col \<in> set (GetColumnIterable (fDescriptor insp) h) \<and> \<not> IsAliasColumn col} \<and>
     (fieldId = GetFieldZeroId (fDescriptor insp) \<and>
      (\<forall>x. x < GetNPhysicalColumns (fDescriptor insp) \<longleftrightarrow>
         (\<exists>h\<in>subtree (fDescriptor insp) (GetFieldZeroId (fDescriptor insp)).
            x \<in> set (nonalias_ids (fDescriptor insp) h))) \<longrightarrow>
      mset colIds = mset [0 ..< GetNPhysicalColumns (fDescriptor insp)])"
proof -
  let ?d = "fDescriptor insp"
  from assms(1) have fin: "finite (child_rel ?d)" and acy: "acyclic (child_rel ?d)"
    by (simp_all add: tree_hierarchy_def)
  from queue_loop_terminates [OF finite_acyclic_wf_converse [OF fin acy]] obtain n r where
    run: "queue_loop n ?d [fieldId] [] = Some r"
    by blast
  then have ret: "\<forall>m\<ge>n. GetColumnsForFieldTree m insp fieldId = Some r"
    by (auto simp: GetColumnsForFieldTree_def intro: queue_loop_mono)
  have ms: "mset r = (\<Sum>h\<in>subtree ?d fieldId. mset (nonalias_ids ?d h))"
    using queue_loop_mset [OF assms(1) run] by simp
  have cnt: "count (mset r) x =
      (if \<exists>h\<in>subtree ?d fieldId. x \<in> set (nonalias_ids ?d h) then 1 else 0)" for x
    unfolding ms by (rule count_owned_once [OF assms(2) finite_subtree [OF fin]])
  have dist: "distinct r"
    unfolding distinct_count_atmost_1
  proof
    fix x
    show "count (mset r) x = (if x \<in> set r then 1 else 0)"
    proof (cases "x \<in> set r")
      case True
      then have "count (mset r) x \<noteq> 0" by (simp add: count_eq_zero_iff)
      with cnt [of x] True show ?thesis by (simp split: if_splits)
    next
      case False
      then show ?thesis by (simp add: count_eq_zero_iff)
    qed
  qed
  have st: "set r =
       {GetPhysicalId col | h col. h \<in> subtree ?d fieldId \<and>
          col \<in> set (GetColumnIterable ?d h) \<and> \<not> IsAliasColumn col}"
    using queue_loop_set [OF run] by (auto simp: nonalias_ids_def)
  have root: "mset r = mset [0 ..< GetNPhysicalColumns ?d]"
    if "fieldId = GetFieldZeroId ?d"
      and "\<forall>x. x < GetNPhysicalColumns ?d \<longleftrightarrow>
         (\<exists>h\<in>subtree ?d (GetFieldZeroId ?d). x \<in> set (nonalias_ids ?d h))"
  proof (rule multiset_eqI)
    fix x
    have "count (mset [0 ..< GetNPhysicalColumns ?d]) x =
        (if x < GetNPhysicalColumns ?d then 1 else 0)"
      by (simp add: distinct_count_atmost_1 [THEN iffD1])
    with cnt [of x] that show "count (mset r) x = count (mset [0 ..< GetNPhysicalColumns ?d]) x"
      by simp
  qed
  from ret dist st root show ?thesis by blast
qed

lemma example_tree: "tree_hierarchy example_descriptor"
  unfolding tree_hierarchy_def
proof (intro conjI allI)
  show "finite (child_rel example_descriptor)" by (rule example_finite)
  show "acyclic (child_rel example_descriptor)" by (rule example_acyclic)
  show "single_valued ((child_rel example_descriptor)\<inverse>)"
    by (auto simp: single_valued_def example_child_rel)
  show "distinct (child_ids example_descriptor g)" for g
    by (simp add: child_ids_def example_descriptor_sel example_field_sel)
qed

lemma example_nonalias_ids:
  "nonalias_ids example_descriptor h =
     (if h = 1 then [0] else if h = 3 then [1] else if h = 4 then [2] else [])"
  by (simp add: nonalias_ids_def example_descriptor_sel example_column_sel)

lemma example_owned_once: "owned_once (nonalias_ids example_descriptor)"
  by (auto simp: owned_once_def example_nonalias_ids split: if_splits)

theorem C6_columns_for_field_tree_witness:
  "\<exists>n colIds.
     (\<forall>m\<ge>n. GetColumnsForFieldTree m alias_inspector 0 = Some colIds) \<and>
     distinct colIds \<and> mset colIds = mset [0 ..< 3]"
proof -
  have t: "tree_hierarchy (fDescriptor alias_inspector)"
    and w: "owned_once (nonalias_ids (fDescriptor alias_inspector))"
    by (simp_all add: alias_descriptor_of alias_tree alias_owned_once)
  have k: "\<forall>x. x < GetNPhysicalColumns (fDescriptor alias_inspector) \<longleftrightarrow>
      (\<exists>h\<in>subtree (fDescriptor alias_inspector) (GetFieldZeroId (fDescriptor alias_inspector)).
         x \<in> set (nonalias_ids (fDescriptor alias_inspector) h))"
    by (auto simp: alias_descriptor_of alias_descriptor_sel alias_subtree alias_nonalias_ids)
  from C6_columns_for_field_tree [OF t w, of 0] k show ?thesis
    by (auto simp: alias_descriptor_of alias_descriptor_sel)
qed

section \<open>The aggregate of the root field\<close>

lemma stored_subtree_sum:
  assumes "tree_hierarchy (fDescriptor insp)" and "fields_ok insp"
  shows "map_of (fFieldInfo insp) F = Some info \<Longrightarrow>
     fld_fOnDiskSize info = (\<Sum>h\<in>subtree (fDescriptor insp) F. columns_on_disk insp h)"
proof -
  let ?d = "fDescriptor insp"
  from assms(1) have "wf ((child_rel ?d)\<inverse>)"
    by (simp add: tree_hierarchy_def finite_acyclic_wf_converse)
  then show "map_of (fFieldInfo insp) F = Some info \<Longrightarrow>
     fld_fOnDiskSize info = (\<Sum>h\<in>subtree ?d F. columns_on_disk insp h)"
  proof (induction F arbitrary: info rule: wf_induct_rule)
    case (less F)
    from assms(2) less.prems have e: "field_entry_ok insp F info"
      by (simp add: fields_ok_def)
    then obtain a b where
      loop: "field_columns_loop insp (GetColumnIterable ?d F) (0, 0) = Inr (a, b)"
      and sz: "fld_fOnDiskSize info = a + sum_list (map (\<lambda>ch. fld_fOnDiskSize (stored_field insp (GetId ch)))
           (GetFieldIterable ?d F))"
      by (auto simp: field_entry_ok_def)
    from field_columns_loop_Inr [OF loop] have a: "a = columns_on_disk insp F"
      by (simp add: columns_on_disk_def)
    have kid: "fld_fOnDiskSize (stored_field insp c) = (\<Sum>h\<in>subtree ?d c. columns_on_disk insp h)"
      if "c \<in> set (child_ids ?d F)" for c
    proof -
      from that e obtain i where i: "map_of (fFieldInfo insp) c = Some i"
        by (auto simp: field_entry_ok_def child_ids_def)
      from that have "(c, F) \<in> (child_rel ?d)\<inverse>" by (simp add: child_rel_iff)
      from less.IH [OF this i] i show ?thesis by (simp add: stored_field_def)
    qed
    have "sum_list (map (\<lambda>ch. fld_fOnDiskSize (stored_field insp (GetId ch))) (GetFieldIterable ?d F))
        = sum_list (map (\<lambda>c. fld_fOnDiskSize (stored_field insp c)) (child_ids ?d F))"
      by (simp add: child_ids_def comp_def)
    also have "\<dots> = sum_list (map (\<lambda>c. \<Sum>h\<in>subtree ?d c. columns_on_disk insp h) (child_ids ?d F))"
      using kid by (simp cong: map_cong)
    finally show ?case
      unfolding sz a by (simp add: sum_subtree [OF assms(1), of _ F])
  qed
qed

lemma sum_mset_image_sum:
  fixes g :: "'b \<Rightarrow> 'c::comm_monoid_add"
  shows "finite S \<Longrightarrow>
     sum_mset (image_mset g (\<Sum>h\<in>S. M h)) = (\<Sum>h\<in>S. sum_mset (image_mset g (M h)))"
  by (induction rule: finite_induct) simp_all

lemma sum_list_as_mset:
  fixes g :: "'b \<Rightarrow> 'c::comm_monoid_add"
  shows "sum_list (map g xs) = sum_mset (image_mset g (mset xs))"
  by (induction xs) (simp_all add: add.commute)

lemma sum_owned:
  fixes g :: "DescriptorId_t \<Rightarrow> 'c::comm_monoid_add"
  assumes "finite S" and "(\<Sum>h\<in>S. mset (ids h)) = mset xs"
  shows "(\<Sum>h\<in>S. sum_list (map g (ids h))) = sum_list (map g xs)"
  by (simp add: sum_list_as_mset sum_mset_image_sum [OF assms(1), symmetric] assms(2))

section \<open>The root aggregate and the whole-source total\<close>

lemma created_root_aggregate:
  assumes "Create depth pageSource = Some (Inr insp)"
    and "tree_hierarchy (fDescriptor insp)"
  shows "\<exists>info. map_of (fFieldInfo insp) (GetFieldZeroId (fDescriptor insp)) = Some info \<and>
     fld_fOnDiskSize info =
       (\<Sum>h\<in>subtree (fDescriptor insp) (GetFieldZeroId (fDescriptor insp)). columns_on_disk insp h) \<and>
     fOnDiskSize insp =
       sum_list (map (\<lambda>c. col_fOnDiskSize (stored_column insp c))
         [0 ..< GetNPhysicalColumns (fDescriptor insp)]) \<and>
     (owned_once (all_ids (fDescriptor insp)) \<and>
      (\<forall>x. x < GetNPhysicalColumns (fDescriptor insp) \<longleftrightarrow>
         (\<exists>h\<in>subtree (fDescriptor insp) (GetFieldZeroId (fDescriptor insp)).
            x \<in> set (all_ids (fDescriptor insp) h))) \<longrightarrow>
      fld_fOnDiskSize info = fOnDiskSize insp)"
proof -
  let ?d = "fDescriptor insp"
  let ?root = "GetFieldZeroId ?d"
  let ?N = "GetNPhysicalColumns ?d"
  let ?g = "\<lambda>c. col_fOnDiskSize (stored_column insp c)"
  note f = Create_facts [OF assms(1)]
  from assms(2) have fin: "finite (child_rel ?d)" by (simp add: tree_hierarchy_def)
  from f(5) subtree_self [of ?root ?d] obtain info where
    st: "map_of (fFieldInfo insp) ?root = Some info"
    by auto
  note agg = stored_subtree_sum [OF assms(2) f(4) st]
  have col: "?g c = sum_list (map fBytesOnStorage (column_pages ?d c))" if "c < ?N" for c
    using that by (simp add: stored_column_def f(2) map_of_keys expected_column_info_def)
  have total: "fOnDiskSize insp = sum_list (map ?g [0 ..< ?N])"
    unfolding f(3) by (rule arg_cong [where f = sum_list]) (simp add: col)
  have eq: "fld_fOnDiskSize info = fOnDiskSize insp"
    if own: "owned_once (all_ids ?d)"
      and cover: "\<forall>x. x < ?N \<longleftrightarrow> (\<exists>h\<in>subtree ?d ?root. x \<in> set (all_ids ?d h))"
  proof -
    have "(\<Sum>h\<in>subtree ?d ?root. mset (all_ids ?d h)) = mset [0 ..< ?N]"
    proof (rule multiset_eqI)
      fix x
      have "count (mset [0 ..< ?N]) x = (if x < ?N then 1 else 0)"
        by (simp add: distinct_count_atmost_1 [THEN iffD1])
      with count_owned_once [OF own finite_subtree [OF fin], of ?root x] cover
      show "count (\<Sum>h\<in>subtree ?d ?root. mset (all_ids ?d h)) x = count (mset [0 ..< ?N]) x"
        by simp
    qed
    from sum_owned [OF finite_subtree [OF fin] this, of ?g]
    have "(\<Sum>h\<in>subtree ?d ?root. columns_on_disk insp h) = sum_list (map ?g [0 ..< ?N])"
      by (simp add: columns_on_disk_def all_ids_def comp_def)
    with agg total show ?thesis by simp
  qed
  from st agg total eq show ?thesis by blast
qed

lemma example_all_ids:
  "all_ids example_descriptor h =
     (if h = 1 then [0] else if h = 3 then [1] else if h = 4 then [2] else [])"
  by (simp add: all_ids_def example_descriptor_sel example_column_sel)

text \<open>
  Over a field hierarchy that is a finite tree, the aggregate of the root field has as
  its on-disk size the sum, over the fields of the hierarchy and the columns directly
  under each, of the stored on-disk size of the physical column the column refers to. The
  whole-source total of the column pass is the sum of the stored on-disk sizes of all
  physical columns. The two agree when every physical column id is listed under exactly
  one field of the hierarchy, exactly once; such a source is constructed, and the
  aggregate of its root field is the whole-source total.
\<close>

lemma root_aggregate_is_total:
  assumes "tree_hierarchy (GetSharedDescriptor pageSource)"
    and "compression_uniform (GetSharedDescriptor pageSource)"
    and "owned_once (all_ids (GetSharedDescriptor pageSource))"
    and "\<forall>x. x < GetNPhysicalColumns (GetSharedDescriptor pageSource) \<longleftrightarrow>
         (\<exists>h\<in>subtree (GetSharedDescriptor pageSource) (GetFieldZeroId (GetSharedDescriptor pageSource)).
            x \<in> set (all_ids (GetSharedDescriptor pageSource) h))"
  shows "\<exists>n insp. (\<forall>depth\<ge>n. Create depth pageSource = Some (Inr insp)) \<and>
     fld_fOnDiskSize (stored_field insp (GetFieldZeroId (fDescriptor insp))) = fOnDiskSize insp \<and>
     fOnDiskSize insp =
       sum_list (map (\<lambda>c. col_fOnDiskSize (stored_column insp c))
         [0 ..< GetNPhysicalColumns (fDescriptor insp)])"
proof -
  let ?d = "GetSharedDescriptor pageSource"
  from assms(1) have "finite (child_rel ?d)" and "acyclic (child_rel ?d)"
    by (simp_all add: tree_hierarchy_def)
  from Create_returns [OF this] obtain n res where
    ret: "\<forall>depth\<ge>n. Create depth pageSource = Some res"
    by blast
  then have at_n: "Create n pageSource = Some res" by simp
  have "columns_in_range ?d"
    unfolding columns_in_range_def
  proof (intro ballI)
    fix h col
    assume "h \<in> subtree ?d (GetFieldZeroId ?d)" and "col \<in> set (GetColumnIterable ?d h)"
    then have "\<exists>h\<in>subtree ?d (GetFieldZeroId ?d). GetPhysicalId col \<in> set (all_ids ?d h)"
      by (auto simp: all_ids_def)
    with assms(4) show "GetPhysicalId col < GetNPhysicalColumns ?d" by blast
  qed
  from Create_succeeds [OF assms(2) this at_n] obtain insp where res: "res = Inr insp" ..
  with at_n have c: "Create n pageSource = Some (Inr insp)" by simp
  have d: "fDescriptor insp = ?d" by (rule Create_facts(1) [OF c])
  from created_root_aggregate [OF c] assms(1,3,4) have
    "fld_fOnDiskSize (stored_field insp (GetFieldZeroId (fDescriptor insp))) = fOnDiskSize insp \<and>
     fOnDiskSize insp =
       sum_list (map (\<lambda>c. col_fOnDiskSize (stored_column insp c))
         [0 ..< GetNPhysicalColumns (fDescriptor insp)])"
    by (auto simp: d stored_field_def)
  with ret res show ?thesis by blast
qed

lemma example_root_aggregate:
  "\<exists>n. (\<forall>depth\<ge>n. Create depth example_source = Some (Inr example_inspector)) \<and>
     fld_fOnDiskSize (stored_field example_inspector 0) = fOnDiskSize example_inspector"
proof -
  have d: "GetSharedDescriptor example_source = example_descriptor"
    by (simp add: example_source_def)
  have u: "compression_uniform example_descriptor"
    by (simp add: compression_uniform_def visited_settings_def column_ranges_def
        column_clusters_def example_descriptor_sel example_cluster_sel upt_0_3)
  have own: "owned_once (all_ids example_descriptor)"
    by (auto simp: owned_once_def example_all_ids split: if_splits)
  have cover: "\<forall>x. x < GetNPhysicalColumns example_descriptor \<longleftrightarrow>
      (\<exists>h\<in>subtree example_descriptor (GetFieldZeroId example_descriptor).
         x \<in> set (all_ids example_descriptor h))"
    by (auto simp: example_descriptor_sel example_subtree example_all_ids)
  from root_aggregate_is_total [of example_source, unfolded d, OF example_tree u own cover]
  obtain n insp where
    ret: "\<forall>depth\<ge>n. Create depth example_source = Some (Inr insp)"
    and eq: "fld_fOnDiskSize (stored_field insp (GetFieldZeroId (fDescriptor insp))) = fOnDiskSize insp"
    by blast
  from ret have "Create (max n 3) example_source = Some (Inr insp)" by simp
  moreover from Create_mono [OF example_Create, of "max n 3"]
  have "Create (max n 3) example_source = Some (Inr example_inspector)"
    by (simp add: eval_nat_numeral)
  ultimately have "insp = example_inspector" by simp
  with ret eq show ?thesis
    by (auto simp: example_descriptor_of example_descriptor_sel)
qed

text \<open>
  C2. The source with a projected field is constructed, and the aggregate of its root
  field is not the whole-source total: the on-disk size stored for the root field is
  130, the total of the column pass, which is the sum of the on-disk sizes of all
  physical columns, is 90. The loop over the columns of a field (lines 85 to 89) adds the
  size of the column that an alias column refers to, a column that is counted under
  its own field already; the enumeration of the columns below a field (lines 116 to
  118) skips alias columns.
\<close>

theorem C2_alias_root_aggregate:
  "Create (Suc (Suc (Suc 0))) alias_source = Some (Inr alias_inspector) \<and>
   fld_fOnDiskSize (stored_field alias_inspector (GetFieldZeroId (fDescriptor alias_inspector))) = 130 \<and>
   fOnDiskSize alias_inspector = 90 \<and>
   sum_list (map (\<lambda>c. col_fOnDiskSize (stored_column alias_inspector c))
     [0 ..< GetNPhysicalColumns (fDescriptor alias_inspector)]) = 90 \<and>
   fld_fOnDiskSize (stored_field alias_inspector (GetFieldZeroId (fDescriptor alias_inspector))) \<noteq>
     fOnDiskSize alias_inspector"
proof -
  have a: "fld_fOnDiskSize (stored_field alias_inspector (GetFieldZeroId (fDescriptor alias_inspector))) = 130"
    by (simp add: stored_field_def alias_inspector_def alias_descriptor_sel)
  have b: "fOnDiskSize alias_inspector = 90"
    by (simp add: alias_inspector_def)
  have c: "sum_list (map (\<lambda>c. col_fOnDiskSize (stored_column alias_inspector c))
     [0 ..< GetNPhysicalColumns (fDescriptor alias_inspector)]) = 90"
    by (simp add: stored_column_def alias_inspector_def alias_descriptor_sel example_columns_def upt_0_3)
  show ?thesis
    unfolding a b c using alias_Create by simp
qed

end
